theory Spec2Isabelle
  imports Complex_Main "HOL-Library.AList"
begin

section \<open>Python floats and the \<open>.4f\<close> format\<close>

text \<open>
  A finite Python float is either negative zero or a rational number (positive zero is
  \<open>Num 0\<close>).  Negative zero is kept apart because it compares equal to zero but prints
  with a sign.  Infinities and NaN are not modelled: the routes reject them, since
  they fail the range constraints of the query parameters.
\<close>

datatype pyfloat = NegZero | Num rat

fun float_val :: "pyfloat \<Rightarrow> rat" where
  "float_val NegZero = 0"
| "float_val (Num q) = q"

text \<open>Python's \<open>==\<close> on floats compares values: \<open>-0.0 == 0.0\<close> holds.\<close>

definition float_eq :: "pyfloat \<Rightarrow> pyfloat \<Rightarrow> bool" where
  "float_eq x y = (float_val x = float_val y)"

text \<open>The sign a float prints with: negative numbers and negative zero.\<close>

fun signbit :: "pyfloat \<Rightarrow> bool" where
  "signbit NegZero = True"
| "signbit (Num q) = (q < 0)"

text \<open>
  Formatting rounds the exact value to the nearest multiple of the last printed digit,
  and an exact tie to the even neighbour.
\<close>

definition round_half_even :: "rat \<Rightarrow> int" where
  "round_half_even y =
     (let f = \<lfloor>y\<rfloor>; d = y - of_int f in
      if d < 1 / 2 then f
      else if 1 / 2 < d then f + 1
      else if even f then f else f + 1)"

definition digit_char :: "int \<Rightarrow> char" where
  "digit_char d =
     (if d = 0 then CHR ''0'' else if d = 1 then CHR ''1'' else if d = 2 then CHR ''2''
      else if d = 3 then CHR ''3'' else if d = 4 then CHR ''4'' else if d = 5 then CHR ''5''
      else if d = 6 then CHR ''6'' else if d = 7 then CHR ''7'' else if d = 8 then CHR ''8''
      else CHR ''9'')"

function digits_of :: "int \<Rightarrow> string" where
  "digits_of n =
     (if n < 10 then [digit_char n] else digits_of (n div 10) @ [digit_char (n mod 10)])"
  by pat_completeness auto
termination
  by (relation "measure nat") auto

declare digits_of.simps [simp del]

definition pad4 :: "int \<Rightarrow> string" where
  "pad4 m = [digit_char (m div 1000 mod 10), digit_char (m div 100 mod 10),
             digit_char (m div 10 mod 10), digit_char (m mod 10)]"

text \<open>\<open>f"{x:.4f}"\<close>: sign, integer digits, a point and exactly four fraction digits.\<close>

definition format_4f :: "pyfloat \<Rightarrow> string" where
  "format_4f x =
     (let n = round_half_even (\<bar>float_val x\<bar> * 10000) in
      (if signbit x then ''-'' else []) @ digits_of (n div 10000) @ ''.'' @ pad4 (n mod 10000))"

text \<open>
  \<open>float(s)\<close> for the strings \<open>format_4f\<close> produces: an optional sign, decimal digits,
  a point, decimal digits.  The value read is the exact decimal; Python returns the
  nearest double, which prints back as the same four-digit decimal for every magnitude
  a coordinate can have.  The only call passes such a string; on the strings Python
  rejects with \<open>ValueError\<close>, the empty one among them, the model says nothing.
\<close>

definition digit_val :: "char \<Rightarrow> int" where
  "digit_val c = of_char c - 48"

definition int_of_digits :: "string \<Rightarrow> int" where
  "int_of_digits cs = foldl (\<lambda>a c. 10 * a + digit_val c) 0 cs"

definition parse_decimal :: "string \<Rightarrow> rat" where
  "parse_decimal s =
     (let ip = takeWhile (\<lambda>c. c \<noteq> CHR ''.'') s;
          fp = drop 1 (dropWhile (\<lambda>c. c \<noteq> CHR ''.'') s)
      in of_int (int_of_digits ip) + of_int (int_of_digits fp) / 10 ^ length fp)"

definition float_of_string :: "string \<Rightarrow> pyfloat" where
  "float_of_string s =
     (case s of
        c # r \<Rightarrow>
          if c = CHR ''-'' then
            (let v = parse_decimal r in if v = 0 then NegZero else Num (- v))
          else Num (parse_decimal s)
      | [] \<Rightarrow> Num 0)"

section \<open>Data model (app/api/models.py)\<close>

text \<open>
  A \<open>datetime.date\<close> is represented by its proleptic Gregorian ordinal (the order on
  dates is the order on ordinals), a \<open>datetime.time\<close> by the microseconds since
  midnight, and a UTC \<open>datetime\<close> by the microseconds since the epoch.  Temperatures
  are exact rationals: the model abstracts from the rounding of double arithmetic,
  and nothing below depends on it.
\<close>

datatype error =
    HTTPError string
  | KeyError string
  | ValueError string
  | ValidationError string

datatype TemperatureUnit = CELSIUS | FAHRENHEIT

definition convert_from_celsius :: "TemperatureUnit \<Rightarrow> rat \<Rightarrow> rat" where
  "convert_from_celsius self temp_c =
     (if self = CELSIUS then temp_c
      else if self = FAHRENHEIT then temp_c * 9 / 5 + 32
      else temp_c)"

record Location =
  latitude :: pyfloat
  longitude :: pyfloat
  name :: "string option"

text \<open>
  The field validator of \<open>Location\<close>; \<open>WeatherService.get_forecast\<close> applies the same
  expression \<open>float(f"{v:.4f}")\<close> to its arguments.
\<close>

definition truncate_coordinates :: "pyfloat \<Rightarrow> pyfloat" where
  "truncate_coordinates v = float_of_string (format_4f v)"

text \<open>
  Constructing a \<open>Location\<close>: the range constraints of the fields are checked on the
  given values, then the field validator runs.
\<close>

definition new_Location :: "pyfloat \<Rightarrow> pyfloat \<Rightarrow> string option \<Rightarrow> error + Location" where
  "new_Location lat lon nm =
     (if - 90 \<le> float_val lat \<and> float_val lat \<le> 90 \<and>
         - 180 \<le> float_val lon \<and> float_val lon \<le> 180
      then Inr \<lparr>latitude = truncate_coordinates lat, longitude = truncate_coordinates lon,
                name = nm\<rparr>
      else Inl (ValidationError ''Location''))"

record TemperatureReading =
  date :: int
  temperature :: rat
  unit :: TemperatureUnit
  time :: int
  source_time :: int

record ForecastResponse =
  location :: Location
  forecasts :: "TemperatureReading list"
  days_returned :: int
  cached :: bool
  stale :: bool
  cached_at :: "int option"
  generated_at :: int

text \<open>
  The field validator \<open>sort_forecasts\<close> is \<open>sorted(v, key=lambda x: x.date)\<close>, a stable
  sort, as \<^const>\<open>sort_key\<close> is.
\<close>

definition sort_forecasts :: "TemperatureReading list \<Rightarrow> TemperatureReading list" where
  "sort_forecasts v = sort_key date v"

definition validate_days_count :: "ForecastResponse \<Rightarrow> ForecastResponse" where
  "validate_days_count self =
     (if forecasts self \<noteq> [] then self\<lparr>days_returned := int (length (forecasts self))\<rparr>
      else self)"

text \<open>
  Constructing a \<open>ForecastResponse\<close>: pydantic runs the field validator on
  \<open>forecasts\<close>, then the model validator (mode \<open>after\<close>) on the assembled object.
  Assignments to the fields of an existing object run no validator.
\<close>

definition new_ForecastResponse ::
  "Location \<Rightarrow> TemperatureReading list \<Rightarrow> int \<Rightarrow> bool \<Rightarrow> bool \<Rightarrow> int option \<Rightarrow> int
     \<Rightarrow> ForecastResponse" where
  "new_ForecastResponse loc fs n c st c_at g_at =
     validate_days_count
       \<lparr>location = loc, forecasts = sort_forecasts fs, days_returned = n, cached = c,
        stale = st, cached_at = c_at, generated_at = g_at\<rparr>"

section \<open>Settings (app/core/config.py)\<close>

definition TARGET_HOUR :: int where "TARGET_HOUR = 14"
definition TARGET_MINUTE :: int where "TARGET_MINUTE = 0"
definition BELGRADE_LAT :: pyfloat where "BELGRADE_LAT = Num (448125 / 10000)"
definition BELGRADE_LON :: pyfloat where "BELGRADE_LON = Num (204612 / 10000)"

section \<open>Daily sampling (WeatherService._process_timeseries)\<close>

text \<open>
  A \<open>YrNoTimeseriesEntry\<close> with the one nested field the service reads,
  \<open>entry.data.instant.details.air_temperature\<close>.
\<close>

record YrNoTimeseriesEntry =
  entry_time :: int
  air_temperature :: rat

text \<open>
  What the service uses of the aware local datetime \<open>timezone_service.to_local_time\<close>
  returns: its \<open>date()\<close> and its \<open>time()\<close>.  The conversion itself rests on the pytz and
  timezonefinder databases and is a parameter of the model.
\<close>

record local_datetime =
  local_date :: int
  local_time :: int

text \<open>
  The target is built on the sample's own date and given the sample's own
  \<open>tzinfo\<close>, so the difference of the two datetimes is the difference of their wall
  clocks: \<open>abs((local_time - target_time).total_seconds())\<close>, in seconds.
\<close>

definition time_diff :: "local_datetime \<Rightarrow> rat" where
  "time_diff lt =
     \<bar>of_int (local_time lt - (TARGET_HOUR * 3600 + TARGET_MINUTE * 60) * 1000000) / 1000000\<bar>"

definition make_reading :: "local_datetime \<Rightarrow> YrNoTimeseriesEntry \<Rightarrow> TemperatureReading" where
  "make_reading lt entry =
     \<lparr>date = local_date lt, temperature = air_temperature entry, unit = CELSIUS,
      time = local_time lt, source_time = entry_time entry\<rparr>"

text \<open>
  The dictionary \<open>readings_by_date\<close> is an association list in insertion order, as a
  Python \<open>dict\<close> is: \<^const>\<open>AList.update\<close> replaces the value of a key in place and
  appends a new key.  One iteration of the loop:
\<close>

definition process_entry ::
  "(int \<Rightarrow> local_datetime) \<Rightarrow> (int \<times> rat \<times> TemperatureReading) list \<Rightarrow> YrNoTimeseriesEntry
     \<Rightarrow> (int \<times> rat \<times> TemperatureReading) list" where
  "process_entry to_local readings_by_date entry =
     (let lt = to_local (entry_time entry);
          forecast_date = local_date lt;
          td = time_diff lt
      in case map_of readings_by_date forecast_date of
           None \<Rightarrow> AList.update forecast_date (td, make_reading lt entry) readings_by_date
         | Some best \<Rightarrow>
             if td < fst best
             then AList.update forecast_date (td, make_reading lt entry) readings_by_date
             else readings_by_date)"

definition process_timeseries ::
  "(int \<Rightarrow> local_datetime) \<Rightarrow> YrNoTimeseriesEntry list \<Rightarrow> TemperatureReading list" where
  "process_timeseries to_local timeseries =
     sort_key date (map (\<lambda>item. snd (snd item)) (foldl (process_entry to_local) [] timeseries))"

section \<open>The live table (cachetools.TTLCache)\<close>

text \<open>
  Modelled from the spec: the class \<open>TTLCache\<close> of the cachetools library, which
  \<open>CacheManager\<close> instantiates and whose source is not part of the repository.  The
  spec describes it as a TTL-bounded store with a bounded size whose eviction policy is
  least recently used; the operations below follow the library's documented
  behaviour.  A link is a key, its value and the timer reading at which it expires;
  the list is in order of use, least recently used first.  An expired link is
  invisible to every operation.  The timer is \<open>time.monotonic\<close>, read in seconds; it
  never runs backwards, so the links \<open>expire\<close> removes are those whose time has come.
\<close>

record TTLCache =
  maxsize :: nat
  ttl :: int
  links :: "(string \<times> nat \<times> int) list"

definition expire :: "int \<Rightarrow> TTLCache \<Rightarrow> TTLCache" where
  "expire t c = c\<lparr>links := filter (\<lambda>l. t < snd (snd l)) (links c)\<rparr>"

text \<open>\<open>key in cache\<close>\<close>

definition ttl_contains :: "int \<Rightarrow> string \<Rightarrow> TTLCache \<Rightarrow> bool" where
  "ttl_contains t key c =
     (case map_of (links c) key of None \<Rightarrow> False | Some ve \<Rightarrow> t < snd ve)"

definition move_to_end ::
  "string \<Rightarrow> (string \<times> nat \<times> int) list \<Rightarrow> (string \<times> nat \<times> int) list" where
  "move_to_end key ls = filter (\<lambda>l. fst l \<noteq> key) ls @ filter (\<lambda>l. fst l = key) ls"

text \<open>\<open>cache[key]\<close>: a missing or expired key raises \<open>KeyError\<close>.\<close>

definition ttl_getitem :: "int \<Rightarrow> string \<Rightarrow> TTLCache \<Rightarrow> (error + nat) \<times> TTLCache" where
  "ttl_getitem t key c =
     (case map_of (links c) key of
        None \<Rightarrow> (Inl (KeyError key), c)
      | Some ve \<Rightarrow>
          (let c' = c\<lparr>links := move_to_end key (links c)\<rparr> in
           if t < snd ve then (Inr (fst ve), c') else (Inl (KeyError key), c')))"

text \<open>
  The loop \<open>while currsize + 1 > maxsize: popitem()\<close> of \<open>Cache.__setitem__\<close> for a
  new key: each round drops the least recently used link.
\<close>

fun popitems :: "nat \<Rightarrow> 'a list \<Rightarrow> 'a list" where
  "popitems m [] = []"
| "popitems m (l # ls) = (if m < length (l # ls) + 1 then popitems m ls else l # ls)"

text \<open>
  \<open>cache[key] = value\<close>: expired links go first; a cache of size zero refuses every
  value; a new key makes room; the key becomes the most recently used and expires
  \<open>ttl\<close> after the timer reading.
\<close>

definition ttl_setitem :: "int \<Rightarrow> string \<Rightarrow> nat \<Rightarrow> TTLCache \<Rightarrow> (error + unit) \<times> TTLCache" where
  "ttl_setitem t key v c =
     (let c1 = expire t c in
      if maxsize c1 < 1 then (Inl (ValueError ''value too large''), c1)
      else
        (let ls = (if map_of (links c1) key = None then popitems (maxsize c1) (links c1)
                   else links c1)
         in (Inr (), c1\<lparr>links := filter (\<lambda>l. fst l \<noteq> key) ls @ [(key, v, t + ttl c1)]\<rparr>)))"

text \<open>\<open>len(cache)\<close> removes the expired links and counts the rest.\<close>

definition ttl_len :: "int \<Rightarrow> TTLCache \<Rightarrow> nat \<times> TTLCache" where
  "ttl_len t c = (length (links (expire t c)), expire t c)"

section \<open>Program state and CacheManager (app/core/cache.py)\<close>

text \<open>
  The service hands out references to objects it later assigns to, so objects live in
  a store: \<open>responses\<close> holds the \<open>ForecastResponse\<close> objects and \<open>entries\<close> the
  \<open>CacheEntry\<close> objects, both by address, and \<open>next_ref\<close> is the next free address.
  The rest of the state are the module-level singletons: the \<open>CacheManager\<close> with its
  live table, its stale table and its two counters, and the lock registry
  \<open>fetch_locks\<close> of the weather service.  Readings are never assigned to after their
  construction and are kept by value.
\<close>

record CacheEntry =
  data :: nat
  created_at :: int
  hit_count :: nat

record state =
  responses :: "nat \<Rightarrow> ForecastResponse"
  entries :: "nat \<Rightarrow> CacheEntry"
  next_ref :: nat
  cache :: TTLCache
  stale_cache :: "string \<rightharpoonup> nat"
  stats_hits :: nat
  stats_misses :: nat
  fetch_locks :: "string set"

definition increment_hits :: "CacheEntry \<Rightarrow> CacheEntry" where
  "increment_hits self = self\<lparr>hit_count := hit_count self + 1\<rparr>"

text \<open>
  Every method of \<open>CacheManager\<close> runs at one reading \<open>t\<close> of the cache's timer
  (\<open>time.monotonic\<close>).  \<open>get\<close> returns the address of the entry.
\<close>

definition get :: "int \<Rightarrow> string \<Rightarrow> state \<Rightarrow> (error + nat option) \<times> state" where
  "get t key s =
     (if ttl_contains t key (cache s) then
        (case ttl_getitem t key (cache s) of
           (Inl e, c) \<Rightarrow> (Inl e, s\<lparr>cache := c\<rparr>)
         | (Inr entry, c) \<Rightarrow>
             (Inr (Some entry),
              s\<lparr>entries := (entries s)(entry := increment_hits (entries s entry)),
                cache := c,
                stats_hits := stats_hits s + 1\<rparr>))
      else (Inr None, s\<lparr>stats_misses := stats_misses s + 1\<rparr>))"

definition get_stale :: "string \<Rightarrow> state \<Rightarrow> nat option" where
  "get_stale key s = (if key \<in> dom (stale_cache s) then stale_cache s key else None)"

definition store_live :: "int \<Rightarrow> string \<Rightarrow> nat \<Rightarrow> state \<Rightarrow> (error + unit) \<times> state" where
  "store_live t key entry s =
     (case ttl_setitem t key entry (cache s) of (r, c) \<Rightarrow> (r, s\<lparr>cache := c\<rparr>))"

text \<open>
  \<open>CacheManager.set\<close> (\<open>set\<close> is taken in HOL).  \<open>utcnow\<close> is the value of
  \<open>datetime.utcnow()\<close> for \<open>created_at\<close>, \<open>dat\<close> the address of the response.
\<close>

definition set_entry :: "int \<Rightarrow> int \<Rightarrow> string \<Rightarrow> nat \<Rightarrow> state \<Rightarrow> (error + unit) \<times> state" where
  "set_entry t utcnow key dat s =
     (let entry = next_ref s;
          s1 = s\<lparr>entries := (entries s)(entry := \<lparr>data = dat, created_at = utcnow, hit_count = 0\<rparr>),
                 next_ref := next_ref s + 1\<rparr>
      in if ttl_contains t key (cache s1) then
           (case ttl_getitem t key (cache s1) of
              (Inl e, c) \<Rightarrow> (Inl e, s1\<lparr>cache := c\<rparr>)
            | (Inr old, c) \<Rightarrow>
                store_live t key entry
                  (s1\<lparr>cache := c, stale_cache := (stale_cache s1)(key \<mapsto> old)\<rparr>))
         else store_live t key entry s1)"

definition get_size :: "int \<Rightarrow> state \<Rightarrow> nat \<times> state" where
  "get_size t s = (case ttl_len t (cache s) of (n, c) \<Rightarrow> (n, s\<lparr>cache := c\<rparr>))"

definition get_hit_rate :: "state \<Rightarrow> rat option" where
  "get_hit_rate s =
     (let total = stats_hits s + stats_misses s in
      if total = 0 then None else Some (of_nat (stats_hits s) / of_nat total * 100))"

record statistics =
  stat_size :: nat
  stat_max_size :: nat
  stat_ttl_seconds :: int
  stat_hits :: nat
  stat_misses :: nat
  stat_hit_rate :: "rat option"

definition get_statistics :: "int \<Rightarrow> state \<Rightarrow> statistics \<times> state" where
  "get_statistics t s =
     (case get_size t s of
        (n, s') \<Rightarrow>
          (\<lparr>stat_size = n, stat_max_size = maxsize (cache s'), stat_ttl_seconds = ttl (cache s'),
            stat_hits = stats_hits s', stat_misses = stats_misses s',
            stat_hit_rate = get_hit_rate s'\<rparr>, s'))"

section \<open>Availability probe (yrno_client.py, health_service.py)\<close>

text \<open>
  The outcome of \<open>http_client.get\<close>: the call raises (a transport error, a timeout), or
  it returns a response with a status code.  httpx does not raise on a status by
  itself.
\<close>

datatype probe = Raised error | Responded nat

definition check_availability :: "probe \<Rightarrow> error + bool" where
  "check_availability p =
     (case p of Raised e \<Rightarrow> Inl e | Responded status_code \<Rightarrow> Inr (status_code = 200))"

text \<open>\<open>HealthService._check_yrno\<close>\<close>

definition check_yrno :: "probe \<Rightarrow> bool" where
  "check_yrno p = (case check_availability p of Inr available \<Rightarrow> available | Inl e \<Rightarrow> False)"

section \<open>WeatherService (app/services/weather_service.py)\<close>

definition generate_key :: "pyfloat \<Rightarrow> pyfloat \<Rightarrow> string" where
  "generate_key lat lon = ''forecast:'' @ format_4f lat @ '':'' @ format_4f lon"

text \<open>
  What one call of \<open>get_forecast\<close> reads from outside the program: the readings of the
  cache's timer at the first probe, at the probe under the lock and at the store; the
  two values of \<open>datetime.utcnow()\<close>; the outcome of \<open>YrNoClient.fetch_forecast\<close>, which
  returns the time series or raises \<open>httpx.HTTPError\<close> (\<open>Inl\<close>, with the message); and
  the time zone conversion.
\<close>

record env =
  now_probe :: int
  now_locked :: int
  now_store :: int
  utcnow_response :: int
  utcnow_entry :: int
  fetch_forecast :: "pyfloat \<Rightarrow> pyfloat \<Rightarrow> string + YrNoTimeseriesEntry list"
  to_local_time :: "int \<Rightarrow> pyfloat \<Rightarrow> pyfloat \<Rightarrow> string option \<Rightarrow> local_datetime"

text \<open>
  \<open>_convert_units\<close> builds converted copies of the readings and assigns the new list
  to the response object it was given.
\<close>

definition convert_reading :: "TemperatureUnit \<Rightarrow> TemperatureReading \<Rightarrow> TemperatureReading" where
  "convert_reading target_unit reading =
     reading\<lparr>temperature := convert_from_celsius target_unit (temperature reading),
             unit := target_unit\<rparr>"

definition convert_units :: "nat \<Rightarrow> TemperatureUnit \<Rightarrow> state \<Rightarrow> nat \<times> state" where
  "convert_units response target_unit s =
     (response,
      s\<lparr>responses := (responses s)(response :=
          (responses s response)\<lparr>forecasts :=
             map (convert_reading target_unit) (forecasts (responses s response))\<rparr>)\<rparr>)"

text \<open>The slice \<open>xs[:n]\<close>; a negative \<open>n\<close> counts from the end.\<close>

definition slice_to :: "'a list \<Rightarrow> int \<Rightarrow> 'a list" where
  "slice_to xs n = (if n < 0 then take (nat (int (length xs) + n)) xs else take (nat n) xs)"

definition filter_days :: "nat \<Rightarrow> int \<Rightarrow> state \<Rightarrow> nat \<times> state" where
  "filter_days response days s =
     (let fs = slice_to (forecasts (responses s response)) days in
      (response,
       s\<lparr>responses := (responses s)(response :=
          (responses s response)\<lparr>forecasts := fs, days_returned := int (length fs)\<rparr>)\<rparr>))"

text \<open>
  The two statements every return path ends with: \<open>if unit != CELSIUS\<close> convert, then
  \<open>if days\<close> (neither \<open>None\<close> nor zero) filter.
\<close>

definition shape :: "nat \<Rightarrow> TemperatureUnit \<Rightarrow> int option \<Rightarrow> state \<Rightarrow> nat \<times> state" where
  "shape response u days s =
     (case (if u \<noteq> CELSIUS then convert_units response u s else (response, s)) of
        (response1, s1) \<Rightarrow>
          (case days of
             None \<Rightarrow> (response1, s1)
           | Some d \<Rightarrow> if d \<noteq> 0 then filter_days response1 d s1 else (response1, s1)))"

text \<open>
  Serving a live entry: \<open>response = cached_entry.data\<close> is the stored object itself,
  and the assignments go to it.
\<close>

definition serve_cached ::
  "nat \<Rightarrow> TemperatureUnit \<Rightarrow> int option \<Rightarrow> state \<Rightarrow> (error + nat) \<times> state" where
  "serve_cached cached_entry u days s =
     (let response = data (entries s cached_entry);
          s1 = s\<lparr>responses := (responses s)(response :=
                 (responses s response)\<lparr>cached := True,
                    cached_at := Some (created_at (entries s cached_entry))\<rparr>)\<rparr>
      in case shape response u days s1 of (r, s2) \<Rightarrow> (Inr r, s2))"

definition serve_stale ::
  "nat \<Rightarrow> TemperatureUnit \<Rightarrow> int option \<Rightarrow> state \<Rightarrow> (error + nat) \<times> state" where
  "serve_stale stale_entry u days s =
     (let response = data (entries s stale_entry);
          s1 = s\<lparr>responses := (responses s)(response :=
                 (responses s response)\<lparr>cached := True, stale := True,
                    cached_at := Some (created_at (entries s stale_entry))\<rparr>)\<rparr>
      in case shape response u days s1 of (r, s2) \<Rightarrow> (Inr r, s2))"

text \<open>
  The path after a successful fetch: process, build the location and the response,
  store the response, shape it.
\<close>

definition serve_fresh ::
  "env \<Rightarrow> YrNoTimeseriesEntry list \<Rightarrow> pyfloat \<Rightarrow> pyfloat \<Rightarrow> string option \<Rightarrow> int option
     \<Rightarrow> TemperatureUnit \<Rightarrow> string option \<Rightarrow> string \<Rightarrow> state \<Rightarrow> (error + nat) \<times> state" where
  "serve_fresh ev timeseries lat lon location_name days u timezone_override cache_key s =
     (let readings =
            process_timeseries (\<lambda>utc. to_local_time ev utc lat lon timezone_override) timeseries
      in case new_Location lat lon location_name of
           Inl e \<Rightarrow> (Inl e, s)
         | Inr loc \<Rightarrow>
             (let response = next_ref s;
                  s1 = s\<lparr>responses := (responses s)(response :=
                         new_ForecastResponse loc readings (int (length readings)) False False
                           None (utcnow_response ev)),
                        next_ref := next_ref s + 1\<rparr>
              in case set_entry (now_store ev) (utcnow_entry ev) cache_key response s1 of
                   (Inl e, s2) \<Rightarrow> (Inl e, s2)
                 | (Inr u1, s2) \<Rightarrow> (case shape response u days s2 of (r, s3) \<Rightarrow> (Inr r, s3))))"

text \<open>
  \<open>get_forecast\<close> for one caller.  The lock is free when it is taken and released on
  every path, so only the registration of its key is left of it in a model of one
  caller at a time.  The result is the address of the response object.
\<close>

definition get_forecast ::
  "env \<Rightarrow> pyfloat \<Rightarrow> pyfloat \<Rightarrow> string option \<Rightarrow> int option \<Rightarrow> TemperatureUnit \<Rightarrow> string option
     \<Rightarrow> state \<Rightarrow> (error + nat) \<times> state" where
  "get_forecast ev lat0 lon0 location_name days u timezone_override s =
     (let lat = float_of_string (format_4f lat0);
          lon = float_of_string (format_4f lon0);
          cache_key = generate_key lat lon
      in case get (now_probe ev) cache_key s of
           (Inl e, s1) \<Rightarrow> (Inl e, s1)
         | (Inr (Some cached_entry), s1) \<Rightarrow> serve_cached cached_entry u days s1
         | (Inr None, s1) \<Rightarrow>
             (let lock_key = ''lock:'' @ cache_key;
                  s2 = s1\<lparr>fetch_locks := insert lock_key (fetch_locks s1)\<rparr>
              in case get (now_locked ev) cache_key s2 of
                   (Inl e, s3) \<Rightarrow> (Inl e, s3)
                 | (Inr (Some cached_entry), s3) \<Rightarrow> serve_cached cached_entry u days s3
                 | (Inr None, s3) \<Rightarrow>
                     (case fetch_forecast ev lat lon of
                        Inl e \<Rightarrow>
                          (case get_stale cache_key s3 of
                             Some stale_entry \<Rightarrow> serve_stale stale_entry u days s3
                           | None \<Rightarrow> (Inl (HTTPError (''yr.no API unavailable: '' @ e)), s3))
                      | Inr timeseries \<Rightarrow>
                          serve_fresh ev timeseries lat lon location_name days u
                            timezone_override cache_key s3)))"

section \<open>Notions used to state the properties\<close>

text \<open>
  The local date of a sample, its distance from the target in seconds and the reading
  the loop builds from it, as the body of the loop computes them.
\<close>

definition entry_date :: "(int \<Rightarrow> local_datetime) \<Rightarrow> YrNoTimeseriesEntry \<Rightarrow> int" where
  "entry_date to_local entry = local_date (to_local (entry_time entry))"

definition entry_diff :: "(int \<Rightarrow> local_datetime) \<Rightarrow> YrNoTimeseriesEntry \<Rightarrow> rat" where
  "entry_diff to_local entry = time_diff (to_local (entry_time entry))"

definition entry_reading :: "(int \<Rightarrow> local_datetime) \<Rightarrow> YrNoTimeseriesEntry \<Rightarrow> TemperatureReading" where
  "entry_reading to_local entry = make_reading (to_local (entry_time entry)) entry"

text \<open>
  Sample \<open>i\<close> is the champion of its date: it is strictly closer to the target than
  every earlier sample of that date and at least as close as every later one.
\<close>

definition champion :: "(int \<Rightarrow> local_datetime) \<Rightarrow> YrNoTimeseriesEntry list \<Rightarrow> nat \<Rightarrow> bool" where
  "champion to_local ts i \<longleftrightarrow>
     i < length ts \<and>
     (\<forall>j < length ts. entry_date to_local (ts ! j) = entry_date to_local (ts ! i) \<longrightarrow>
        (if j < i then entry_diff to_local (ts ! i) < entry_diff to_local (ts ! j)
         else entry_diff to_local (ts ! i) \<le> entry_diff to_local (ts ! j)))"

text \<open>
  The loop invariant: the table has an entry for exactly the dates seen so far, and
  the entry of a date is its champion.
\<close>

definition table_ok ::
  "(int \<Rightarrow> local_datetime) \<Rightarrow> YrNoTimeseriesEntry list \<Rightarrow> (int \<times> rat \<times> TemperatureReading) list \<Rightarrow> bool" where
  "table_ok zone ts tbl \<longleftrightarrow>
     (\<forall>d. case map_of tbl d of
        None \<Rightarrow> d \<notin> entry_date zone ` set ts
      | Some best \<Rightarrow>
          (\<exists>i. champion zone ts i \<and> entry_date zone (ts ! i) = d \<and>
               best = (entry_diff zone (ts ! i), entry_reading zone (ts ! i))))"

text \<open>
  For examples: the zone whose local time is UTC (day 719163 is 1 January 1970), the
  samples of 15 and 16 January 2026 at 14:00 UTC, and the surroundings of a call at
  timer reading \<open>t\<close> in which the fetch has the given outcome.
\<close>

definition utc_zone :: "int \<Rightarrow> local_datetime" where
  "utc_zone utc =
     \<lparr>local_date = 719163 + utc div 86400000000, local_time = utc mod 86400000000\<rparr>"

definition two_days :: "YrNoTimeseriesEntry list" where
  "two_days =
     [\<lparr>entry_time = 1768485600000000, air_temperature = 5\<rparr>,
      \<lparr>entry_time = 1768572000000000, air_temperature = 10\<rparr>]"

definition env_at :: "int \<Rightarrow> string + YrNoTimeseriesEntry list \<Rightarrow> env" where
  "env_at t outcome =
     \<lparr>now_probe = t, now_locked = t, now_store = t, utcnow_response = t, utcnow_entry = t,
      fetch_forecast = (\<lambda>lat lon. outcome),
      to_local_time = (\<lambda>utc lat lon tz. utc_zone utc)\<rparr>"

text \<open>
  The state of a fresh process: \<open>CacheManager()\<close> with the two cache settings, no
  lock, and a store in which every address still holds a blank object that nothing
  refers to.
\<close>

definition blank_response :: ForecastResponse where
  "blank_response =
     \<lparr>location = \<lparr>latitude = Num 0, longitude = Num 0, name = None\<rparr>, forecasts = [],
      days_returned = 0, cached = False, stale = False, cached_at = None, generated_at = 0\<rparr>"

definition init_state :: "nat \<Rightarrow> int \<Rightarrow> state" where
  "init_state CACHE_MAX_SIZE CACHE_TTL_SECONDS =
     \<lparr>responses = (\<lambda>r. blank_response),
      entries = (\<lambda>r. \<lparr>data = 0, created_at = 0, hit_count = 0\<rparr>),
      next_ref = 0,
      cache = \<lparr>maxsize = CACHE_MAX_SIZE, ttl = CACHE_TTL_SECONDS, links = []\<rparr>,
      stale_cache = Map.empty, stats_hits = 0, stats_misses = 0, fetch_locks = {}\<rparr>"

text \<open>
  The operations of the cache as data, each at a reading of the timer, and the run
  of a sequence of them.
\<close>

datatype cache_op =
    Get string
  | GetStale string
  | SetEntry int string nat
  | GetSize
  | GetHitRate
  | GetStatistics

fun apply_op :: "state \<Rightarrow> int \<times> cache_op \<Rightarrow> state" where
  "apply_op s (t, Get key) = snd (get t key s)"
| "apply_op s (t, GetStale key) = s"
| "apply_op s (t, SetEntry utcnow key dat) = snd (set_entry t utcnow key dat s)"
| "apply_op s (t, GetSize) = snd (get_size t s)"
| "apply_op s (t, GetHitRate) = s"
| "apply_op s (t, GetStatistics) = snd (get_statistics t s)"

definition run_ops :: "(int \<times> cache_op) list \<Rightarrow> state \<Rightarrow> state" where
  "run_ops ops s = foldl apply_op s ops"

text \<open>Every key of \<open>ks\<close> in turn is stored and at once stored again.\<close>

definition supersede :: "int \<Rightarrow> string list \<Rightarrow> (int \<times> cache_op) list" where
  "supersede t ks = concat (map (\<lambda>k. [(t, SetEntry 0 k 0), (t, SetEntry 0 k 0)]) ks)"

text \<open>The entry the live table shows for a key at a reading of the timer, if any.\<close>

definition live_entry :: "int \<Rightarrow> string \<Rightarrow> TTLCache \<Rightarrow> nat option" where
  "live_entry t key c =
     (case map_of (links c) key of
        None \<Rightarrow> None
      | Some ve \<Rightarrow> if t < snd ve then Some (fst ve) else None)"

text \<open>
  The list a return path leaves in the response: converted unless the unit is Celsius,
  then cut to the requested number of days.
\<close>

definition shaped_forecasts ::
  "TemperatureUnit \<Rightarrow> int option \<Rightarrow> TemperatureReading list \<Rightarrow> TemperatureReading list" where
  "shaped_forecasts u days fs =
     (let converted = (if u \<noteq> CELSIUS then map (convert_reading u) fs else fs) in
      case days of
        None \<Rightarrow> converted
      | Some d \<Rightarrow> if d \<noteq> 0 then slice_to converted d else converted)"

text \<open>
  For examples: the state after a forecast for Belgrade is fetched at timer reading 0
  and its response is stored once more at reading 1, so that the first entry is in
  the stale table.
\<close>

definition demoted_state :: state where
  "demoted_state =
     snd (set_entry 1 1 ''forecast:44.8125:20.4612'' 0
       (snd (get_forecast (env_at 0 (Inr two_days)) BELGRADE_LAT BELGRADE_LON None None
               CELSIUS None (init_state 1000 3600))))"

text \<open>
  For examples: the state after a first call for Belgrade that asks for one day in
  Fahrenheit, at timer reading 0 of a fresh process.
\<close>

definition after_fahrenheit_call :: state where
  "after_fahrenheit_call =
     snd (get_forecast (env_at 0 (Inr two_days)) BELGRADE_LAT BELGRADE_LON None (Some 1)
            FAHRENHEIT None (init_state 1000 3600))"

text \<open>
  A response whose forecasts are strictly ascending by date; an entry whose response is;
  a cache all of whose entries, live and stale, are.
\<close>

definition ascending :: "ForecastResponse \<Rightarrow> bool" where
  "ascending r \<longleftrightarrow> sorted_wrt (<) (map date (forecasts r))"

definition entry_ok :: "state \<Rightarrow> nat \<Rightarrow> bool" where
  "entry_ok s e \<longleftrightarrow> ascending (responses s (data (entries s e)))"

definition cache_ok :: "state \<Rightarrow> bool" where
  "cache_ok s \<longleftrightarrow>
     (\<forall>l \<in> set (links (cache s)). entry_ok s (fst (snd l)))
     \<and> (\<forall>e \<in> ran (stale_cache s). entry_ok s e)"

text \<open>
  The states the program reaches from a fresh process: by calls of \<open>get_forecast\<close>,
  with any arguments and in any surroundings, and by health checks, which read the
  statistics of the cache.
\<close>

inductive reachable :: "state \<Rightarrow> bool" where
  start: "reachable (init_state CACHE_MAX_SIZE CACHE_TTL_SECONDS)"
| call: "reachable s \<Longrightarrow> reachable (snd (get_forecast ev lat lon nm days u tz s))"
| health: "reachable s \<Longrightarrow> reachable (snd (get_statistics t s))"

text \<open>
  The decimal digits, and the number of ten-thousandths \<open>format_4f\<close> prints for a float.
\<close>

definition is_digit :: "char \<Rightarrow> bool" where
  "is_digit c \<longleftrightarrow> c \<in> set ''0123456789''"

definition rounded4 :: "pyfloat \<Rightarrow> int" where
  "rounded4 x = round_half_even (\<bar>float_val x\<bar> * 10000)"

section \<open>The response validators\<close>

lemma sort_key_Nil_iff: "sort_key f xs = [] \<longleftrightarrow> xs = []"
proof
  assume "sort_key f xs = []"
  then have "length (sort_key f xs) = 0" by simp
  then show "xs = []" by (simp only: length_sort length_0_conv)
qed simp

lemma forecasts_new_ForecastResponse:
  "forecasts (new_ForecastResponse loc fs n c st c_at g_at) = sort_key date fs"
  by (simp add: new_ForecastResponse_def validate_days_count_def sort_forecasts_def)

text \<open>
  C10.  A constructed \<open>ForecastResponse\<close> whose list of forecasts is not empty has
  \<open>days_returned\<close> equal to the length of its \<open>forecasts\<close> (which is the length of
  the list given), whatever count the caller supplied; when the list is empty, the
  caller's count is kept as it is.
\<close>

theorem validate_days_count_forces_length:
  "days_returned (new_ForecastResponse loc fs n c st c_at g_at) =
     (if fs = [] then n
      else int (length (forecasts (new_ForecastResponse loc fs n c st c_at g_at))))
   \<and> length (forecasts (new_ForecastResponse loc fs n c st c_at g_at)) = length fs"
  by (simp add: new_ForecastResponse_def validate_days_count_def sort_forecasts_def
      sort_key_Nil_iff)

theorem validate_days_count_forces_length_witness:
  "days_returned
     (new_ForecastResponse \<lparr>latitude = BELGRADE_LAT, longitude = BELGRADE_LON, name = None\<rparr>
        [\<lparr>date = 739631, temperature = 5, unit = CELSIUS, time = 50400000000,
          source_time = 0\<rparr>] 999 False False None 0) = 1
   \<and> days_returned
     (new_ForecastResponse \<lparr>latitude = BELGRADE_LAT, longitude = BELGRADE_LON, name = None\<rparr>
        [] 999 False False None 0) = 999"
  using validate_days_count_forces_length
    [of "\<lparr>latitude = BELGRADE_LAT, longitude = BELGRADE_LON, name = None\<rparr>"
        "[\<lparr>date = 739631, temperature = 5, unit = CELSIUS, time = 50400000000,
           source_time = 0\<rparr>]" 999 False False None 0]
    validate_days_count_forces_length
    [of "\<lparr>latitude = BELGRADE_LAT, longitude = BELGRADE_LON, name = None\<rparr>"
        "[]" 999 False False None 0]
  by simp

section \<open>The availability probe\<close>

text \<open>
  C6 fails on the code.  A response is answered as the claim says: status 200 is
  reported as true and a non-2xx status such as 503 as false.  But when the probe
  request itself raises (here a connection error, the API being unreachable),
  \<open>check_availability\<close> raises too and returns no boolean, against its own docstring
  "True if API is reachable, False otherwise": it has no handler around the request.
\<close>

theorem check_availability_raises:
  "check_availability (Responded 200) = Inr True
   \<and> check_availability (Responded 503) = Inr False
   \<and> check_availability (Raised (HTTPError ''ConnectError'')) = Inl (HTTPError ''ConnectError'')
   \<and> check_availability (Raised (HTTPError ''ConnectError'')) \<noteq> Inr False"
  by (simp add: check_availability_def)

text \<open>
  The only caller, \<open>HealthService._check_yrno\<close>, wraps the call in a handler of its
  own, so the health check reports an error of the request as false.
\<close>

lemma check_yrno_catches:
  "check_yrno p = (p = Responded 200)"
  by (cases p) (simp_all add: check_yrno_def check_availability_def)

section \<open>Daily sampling\<close>

lemma process_entry_alt:
  "process_entry zone tbl e =
     (case map_of tbl (entry_date zone e) of
        None \<Rightarrow> AList.update (entry_date zone e) (entry_diff zone e, entry_reading zone e) tbl
      | Some best \<Rightarrow>
          if entry_diff zone e < fst best
          then AList.update (entry_date zone e) (entry_diff zone e, entry_reading zone e) tbl
          else tbl)"
  by (simp add: process_entry_def entry_date_def entry_diff_def entry_reading_def Let_def
      split: option.splits)

lemma date_entry_reading: "date (entry_reading zone e) = entry_date zone e"
  by (simp add: entry_reading_def entry_date_def make_reading_def)

lemma distinct_process_entry:
  "distinct (map fst tbl) \<Longrightarrow> distinct (map fst (process_entry zone tbl e))"
  by (simp add: process_entry_alt distinct_update split: option.splits)

lemma distinct_table: "distinct (map fst (foldl (process_entry zone) [] ts))"
  by (induction ts rule: rev_induct) (simp_all add: distinct_process_entry)

lemma champion_new:
  assumes "\<forall>j < length ts. entry_date zone (ts ! j) = entry_date zone e \<longrightarrow> entry_diff zone e < entry_diff zone (ts ! j)"
  shows "champion zone (ts @ [e]) (length ts)"
  using assms by (auto simp: champion_def nth_append less_Suc_eq)

lemma champion_keep:
  assumes "champion zone ts i"
    and "entry_date zone e = entry_date zone (ts ! i) \<Longrightarrow> entry_diff zone (ts ! i) \<le> entry_diff zone e"
  shows "champion zone (ts @ [e]) i"
  using assms by (auto simp: champion_def nth_append less_Suc_eq)

lemma champion_bound:
  "champion zone ts i \<Longrightarrow> j < length ts \<Longrightarrow> entry_date zone (ts ! j) = entry_date zone (ts ! i)
    \<Longrightarrow> entry_diff zone (ts ! i) \<le> entry_diff zone (ts ! j)"
  by (auto simp: champion_def split: if_splits)

lemma table_ok_step:
  assumes ok: "table_ok zone ts tbl"
  shows "table_ok zone (ts @ [e]) (process_entry zone tbl e)"
proof -
  let ?d = "entry_date zone e"
  let ?new = "(entry_diff zone e, entry_reading zone e)"
  have old: "\<And>d. case map_of tbl d of
        None \<Rightarrow> d \<notin> entry_date zone ` set ts
      | Some best \<Rightarrow>
          (\<exists>i. champion zone ts i \<and> entry_date zone (ts ! i) = d \<and>
               best = (entry_diff zone (ts ! i), entry_reading zone (ts ! i)))"
    using ok by (simp add: table_ok_def)
  have other: "case map_of tbl d of
        None \<Rightarrow> d \<notin> entry_date zone ` set (ts @ [e])
      | Some best \<Rightarrow>
          (\<exists>i. champion zone (ts @ [e]) i \<and> entry_date zone ((ts @ [e]) ! i) = d \<and>
               best = (entry_diff zone ((ts @ [e]) ! i), entry_reading zone ((ts @ [e]) ! i)))"
    if "d \<noteq> ?d" for d
  proof (cases "map_of tbl d")
    case None
    with old [of d] that show ?thesis by auto
  next
    case (Some best)
    with old [of d] obtain i where i: "champion zone ts i" "entry_date zone (ts ! i) = d"
      "best = (entry_diff zone (ts ! i), entry_reading zone (ts ! i))" by auto
    from i(1) have lt: "i < length ts" by (simp add: champion_def)
    from i(1,2) that have "champion zone (ts @ [e]) i" by (intro champion_keep) auto
    with i lt Some show ?thesis by (auto simp: nth_append)
  qed
  have fresh: "champion zone (ts @ [e]) (length ts) \<and>
      entry_date zone ((ts @ [e]) ! length ts) = ?d \<and>
      ?new = (entry_diff zone ((ts @ [e]) ! length ts), entry_reading zone ((ts @ [e]) ! length ts))"
    if "\<forall>j < length ts. entry_date zone (ts ! j) = ?d \<longrightarrow> entry_diff zone e < entry_diff zone (ts ! j)"
    using champion_new [OF that] by simp
  show ?thesis
  proof (cases "map_of tbl ?d")
    case None
    with old [of ?d] have "\<forall>j < length ts. entry_date zone (ts ! j) \<noteq> ?d"
      by (auto simp: image_iff) (metis nth_mem)
    then have "\<forall>j < length ts. entry_date zone (ts ! j) = ?d \<longrightarrow> entry_diff zone e < entry_diff zone (ts ! j)"
      by blast
    from fresh [OF this] have new: "\<exists>i. champion zone (ts @ [e]) i \<and>
      entry_date zone ((ts @ [e]) ! i) = ?d \<and>
      ?new = (entry_diff zone ((ts @ [e]) ! i), entry_reading zone ((ts @ [e]) ! i))"
      by blast
    have eq: "process_entry zone tbl e = AList.update ?d ?new tbl"
      using None by (simp add: process_entry_alt)
    show ?thesis
      unfolding table_ok_def eq update_conv'
    proof
      fix d
      show "case ((map_of tbl)(?d \<mapsto> ?new)) d of
        None \<Rightarrow> d \<notin> entry_date zone ` set (ts @ [e])
      | Some best \<Rightarrow>
          (\<exists>i. champion zone (ts @ [e]) i \<and> entry_date zone ((ts @ [e]) ! i) = d \<and>
               best = (entry_diff zone ((ts @ [e]) ! i), entry_reading zone ((ts @ [e]) ! i)))"
        using other [of d] new by (cases "d = ?d") simp_all
    qed
  next
    case (Some best)
    with old [of ?d] obtain i where i: "champion zone ts i" "entry_date zone (ts ! i) = ?d"
      "best = (entry_diff zone (ts ! i), entry_reading zone (ts ! i))" by auto
    from i(1) have lt: "i < length ts" by (simp add: champion_def)
    show ?thesis
    proof (cases "entry_diff zone e < fst best")
      case True
      have "\<forall>j < length ts. entry_date zone (ts ! j) = ?d \<longrightarrow> entry_diff zone e < entry_diff zone (ts ! j)"
      proof (intro allI impI)
        fix j assume "j < length ts" "entry_date zone (ts ! j) = ?d"
        with champion_bound [OF i(1), of j] i(2)
        have "entry_diff zone (ts ! i) \<le> entry_diff zone (ts ! j)" by simp
        with True i(3) show "entry_diff zone e < entry_diff zone (ts ! j)" by simp
      qed
      from fresh [OF this] have new: "\<exists>i. champion zone (ts @ [e]) i \<and>
        entry_date zone ((ts @ [e]) ! i) = ?d \<and>
        ?new = (entry_diff zone ((ts @ [e]) ! i), entry_reading zone ((ts @ [e]) ! i))"
        by blast
      have eq: "process_entry zone tbl e = AList.update ?d ?new tbl"
        using Some True by (simp add: process_entry_alt)
      show ?thesis
        unfolding table_ok_def eq update_conv'
      proof
        fix d
        show "case ((map_of tbl)(?d \<mapsto> ?new)) d of
          None \<Rightarrow> d \<notin> entry_date zone ` set (ts @ [e])
        | Some best \<Rightarrow>
            (\<exists>i. champion zone (ts @ [e]) i \<and> entry_date zone ((ts @ [e]) ! i) = d \<and>
                 best = (entry_diff zone ((ts @ [e]) ! i), entry_reading zone ((ts @ [e]) ! i)))"
          using other [of d] new by (cases "d = ?d") simp_all
      qed
    next
      case False
      with i(3) have "entry_diff zone (ts ! i) \<le> entry_diff zone e" by simp
      with i(1) have "champion zone (ts @ [e]) i" by (intro champion_keep) auto
      with i lt have keep: "\<exists>i. champion zone (ts @ [e]) i \<and>
        entry_date zone ((ts @ [e]) ! i) = ?d \<and>
        best = (entry_diff zone ((ts @ [e]) ! i), entry_reading zone ((ts @ [e]) ! i))"
        by (auto simp: nth_append)
      have eq: "process_entry zone tbl e = tbl"
        using Some False by (simp add: process_entry_alt)
      show ?thesis
        unfolding table_ok_def eq
      proof
        fix d
        show "case map_of tbl d of
          None \<Rightarrow> d \<notin> entry_date zone ` set (ts @ [e])
        | Some best \<Rightarrow>
            (\<exists>i. champion zone (ts @ [e]) i \<and> entry_date zone ((ts @ [e]) ! i) = d \<and>
                 best = (entry_diff zone ((ts @ [e]) ! i), entry_reading zone ((ts @ [e]) ! i)))"
          using other [of d] keep Some by (cases "d = ?d") simp_all
      qed
    qed
  qed
qed

lemma table_ok_foldl: "table_ok zone ts (foldl (process_entry zone) [] ts)"
proof (induction ts rule: rev_induct)
  case Nil
  show ?case by (simp add: table_ok_def)
next
  case (snoc e ts)
  then show ?case by (simp add: table_ok_step)
qed


lemma map_insort_key: "map f (insort_key f x xs) = insort (f x) (map f xs)"
  by (induction xs) simp_all

lemma map_sort_key: "map f (sort_key f xs) = sort (map f xs)"
  by (induction xs) (simp_all add: map_insort_key)

lemma table_entry:
  assumes "(d, best) \<in> set (foldl (process_entry zone) [] ts)"
  shows "\<exists>i. champion zone ts i \<and> entry_date zone (ts ! i) = d \<and>
           best = (entry_diff zone (ts ! i), entry_reading zone (ts ! i))"
proof -
  from assms have "map_of (foldl (process_entry zone) [] ts) d = Some best"
    by (simp add: distinct_table)
  with table_ok_foldl [of zone ts] show ?thesis
    by (auto simp: table_ok_def dest!: spec [of _ d])
qed

lemma table_dates:
  "map (\<lambda>item. date (snd (snd item))) (foldl (process_entry zone) [] ts) =
   map fst (foldl (process_entry zone) [] ts)"
  by (rule map_cong [OF refl]) (auto dest!: table_entry simp: date_entry_reading)


lemma dates_process_timeseries:
  "map date (process_timeseries zone ts) = sort (map fst (foldl (process_entry zone) [] ts))"
  by (simp add: process_timeseries_def map_sort_key o_def table_dates)



section \<open>The stale table\<close>

lemma ttl_getitem_live:
  "ttl_contains t key c \<Longrightarrow>
     ttl_getitem t key c =
       (Inr (fst (the (map_of (links c) key))), c\<lparr>links := move_to_end key (links c)\<rparr>)"
  by (auto simp: ttl_contains_def ttl_getitem_def Let_def split: option.splits)

lemma live_entry_contains: "ttl_contains t key c \<longleftrightarrow> live_entry t key c \<noteq> None"
  by (simp add: ttl_contains_def live_entry_def split: option.splits)

lemma live_entry_the:
  "ttl_contains t key c \<Longrightarrow> live_entry t key c = Some (fst (the (map_of (links c) key)))"
  by (auto simp: ttl_contains_def live_entry_def split: option.splits)

lemma stale_cache_get [simp]: "stale_cache (snd (get t key s)) = stale_cache s"
  by (simp add: get_def split: prod.splits sum.splits)

lemma stale_cache_get_size [simp]: "stale_cache (snd (get_size t s)) = stale_cache s"
  by (simp add: get_size_def split: prod.splits)

lemma stale_cache_get_statistics [simp]: "stale_cache (snd (get_statistics t s)) = stale_cache s"
  by (simp add: get_statistics_def get_size_def split: prod.splits)

lemma snd_store_live:
  "snd (store_live t key entry s) = s\<lparr>cache := snd (ttl_setitem t key entry (cache s))\<rparr>"
  by (simp add: store_live_def split_beta)

lemma fst_store_live: "fst (store_live t key entry s) = fst (ttl_setitem t key entry (cache s))"
  by (simp add: store_live_def split_beta)

lemma stale_cache_store_live [simp]: "stale_cache (snd (store_live t key entry s)) = stale_cache s"
  by (simp add: snd_store_live)

lemma stale_cache_set_entry:
  "stale_cache (snd (set_entry t utcnow key dat s)) =
     (case live_entry t key (cache s) of
        None \<Rightarrow> stale_cache s
      | Some old \<Rightarrow> (stale_cache s)(key \<mapsto> old))"
proof (cases "ttl_contains t key (cache s)")
  case True
  then show ?thesis
    by (simp add: set_entry_def Let_def ttl_getitem_live live_entry_the)
next
  case False
  then have "live_entry t key (cache s) = None"
    by (simp add: live_entry_contains)
  with False show ?thesis
    by (simp add: set_entry_def Let_def)
qed

lemma stale_cache_apply_op:
  "stale_cache s key \<noteq> None \<Longrightarrow> stale_cache (apply_op s tp) key \<noteq> None"
  by (cases "(s, tp)" rule: apply_op.cases)
    (simp_all add: stale_cache_set_entry split: option.splits)

lemma stale_cache_run_ops:
  "stale_cache s key \<noteq> None \<Longrightarrow> stale_cache (run_ops ops s) key \<noteq> None"
  unfolding run_ops_def
proof (induction ops arbitrary: s)
  case Nil
  then show ?case by simp
next
  case (Cons tp ops)
  from Cons.prems have "stale_cache (apply_op s tp) key \<noteq> None"
    by (rule stale_cache_apply_op)
  then show ?case by (simp add: Cons.IH)
qed

lemma map_of_filter_other: "map_of (filter (\<lambda>l. fst l \<noteq> key) ls) key = None"
  by (simp add: map_of_eq_None_iff image_iff)

lemma ttl_setitem_params:
  "maxsize (snd (ttl_setitem t key v c)) = maxsize c \<and> ttl (snd (ttl_setitem t key v c)) = ttl c"
  by (simp add: ttl_setitem_def expire_def Let_def)

lemma ttl_setitem_contains:
  assumes "0 < maxsize c" and "0 < ttl c"
  shows "ttl_contains t key (snd (ttl_setitem t key v c))"
  using assms
  by (simp add: ttl_setitem_def expire_def Let_def ttl_contains_def map_add_def
      map_of_filter_other)

lemma cache_params_set_entry:
  "maxsize (cache (snd (set_entry t utcnow key dat s))) = maxsize (cache s)
   \<and> ttl (cache (snd (set_entry t utcnow key dat s))) = ttl (cache s)"
  by (simp add: set_entry_def Let_def ttl_getitem_live snd_store_live ttl_setitem_params)

lemma set_entry_live:
  assumes "0 < maxsize (cache s)" and "0 < ttl (cache s)"
  shows "ttl_contains t key (cache (snd (set_entry t utcnow key dat s)))"
proof -
  have "ttl_contains t key (cache (snd (store_live t key e s')))"
    if "0 < maxsize (cache s')" "0 < ttl (cache s')" for e s'
    using ttl_setitem_contains [OF that, of t key e]
    by (simp add: snd_store_live)
  with assms show ?thesis
    by (simp add: set_entry_def Let_def ttl_getitem_live)
qed

lemma set_entry_twice:
  assumes "0 < maxsize (cache s)" and "0 < ttl (cache s)"
  shows "stale_cache (snd (set_entry t u2 key d2 (snd (set_entry t u1 key d1 s)))) key \<noteq> None"
  using set_entry_live [OF assms, of t key u1 d1]
  by (auto simp: stale_cache_set_entry live_entry_contains split: option.splits)

lemma supersede_fills_stale:
  assumes "0 < maxsize (cache s)" and "0 < ttl (cache s)"
  shows "set ks \<subseteq> dom (stale_cache (run_ops (supersede t ks) s))"
  using assms
proof (induction ks arbitrary: s)
  case Nil
  then show ?case by simp
next
  case (Cons k ks)
  let ?s2 = "snd (set_entry t 0 k 0 (snd (set_entry t 0 k 0 s)))"
  have run: "run_ops (supersede t (k # ks)) s = run_ops (supersede t ks) ?s2"
    by (simp add: run_ops_def supersede_def)
  have params: "0 < maxsize (cache ?s2)" "0 < ttl (cache ?s2)"
    using Cons.prems by (simp_all add: cache_params_set_entry)
  have "stale_cache ?s2 k \<noteq> None"
    using Cons.prems by (rule set_entry_twice)
  then have "stale_cache (run_ops (supersede t ks) ?s2) k \<noteq> None"
    by (rule stale_cache_run_ops)
  moreover have "set ks \<subseteq> dom (stale_cache (run_ops (supersede t ks) ?s2))"
    using params by (rule Cons.IH)
  ultimately show ?case
    unfolding run by (auto simp: domIff)
qed

text \<open>
  C9.  A key that has a stale entry has one after every sequence of cache operations,
  at whatever readings of the timer they run and whatever they evict from the live
  table: \<open>get\<close>, \<open>get_stale\<close> and the statistics leave the stale table as it is, and
  \<open>set\<close> changes it only at its own key, to the entry that was live there.  The stale
  table is not bounded by the size of the live table: when the cache holds at least
  one entry and entries live for a positive time, storing each key of any list twice
  leaves every one of them with a stale entry.
\<close>

theorem stale_entry_is_never_removed:
  "(stale_cache s key \<noteq> None \<longrightarrow> get_stale key (run_ops ops s) \<noteq> None)
   \<and> stale_cache (apply_op s (t, Get k)) = stale_cache s
   \<and> stale_cache (apply_op s (t, GetStale k)) = stale_cache s
   \<and> stale_cache (apply_op s (t, GetSize)) = stale_cache s
   \<and> stale_cache (apply_op s (t, GetHitRate)) = stale_cache s
   \<and> stale_cache (apply_op s (t, GetStatistics)) = stale_cache s
   \<and> stale_cache (apply_op s (t, SetEntry utcnow k dat)) =
       (case live_entry t k (cache s) of
          None \<Rightarrow> stale_cache s
        | Some old \<Rightarrow> (stale_cache s)(k \<mapsto> old))
   \<and> (0 < maxsize (cache s) \<and> 0 < ttl (cache s) \<longrightarrow>
        set ks \<subseteq> dom (stale_cache (run_ops (supersede t ks) s)))"
proof -
  have "get_stale key (run_ops ops s) \<noteq> None" if "stale_cache s key \<noteq> None"
    using stale_cache_run_ops [OF that, of ops] by (simp add: get_stale_def domIff)
  then show ?thesis
    by (simp add: stale_cache_set_entry supersede_fills_stale)
qed

text \<open>
  A live table of size one: the key \<open>a\<close> is superseded once, then evicted and expired,
  and still has its stale entry; three superseded keys all have one.
\<close>

theorem stale_entry_is_never_removed_witness:
  "get_stale ''a''
     (run_ops [(5000, Get ''a''), (5000, SetEntry 0 ''b'' 1), (5001, GetStatistics),
               (9000, SetEntry 0 ''a'' 2)]
        (run_ops (supersede 0 [''a'']) (init_state 1 3600))) \<noteq> None
   \<and> set [''a'', ''b'', ''c''] \<subseteq>
       dom (stale_cache (run_ops (supersede 0 [''a'', ''b'', ''c''])
              (run_ops (supersede 0 [''a'']) (init_state 1 3600))))
   \<and> maxsize (cache (run_ops (supersede 0 [''a'']) (init_state 1 3600))) = 1"
proof -
  let ?s = "run_ops (supersede 0 [''a'']) (init_state 1 3600)"
  have h1: "stale_cache ?s ''a'' \<noteq> None"
    by code_simp
  have h2: "maxsize (cache ?s) = 1 \<and> ttl (cache ?s) = 3600"
    by code_simp
  have h3: "0 < maxsize (cache ?s) \<and> 0 < ttl (cache ?s)"
    using h2 by simp
  from stale_entry_is_never_removed
    [where s = ?s and key = "''a''" and t = 0 and ks = "[''a'', ''b'', ''c'']"
       and ops = "[(5000, Get ''a''), (5000, SetEntry 0 ''b'' 1), (5001, GetStatistics),
               (9000, SetEntry 0 ''a'' 2)]"] h1 h2 h3
  show ?thesis by blast
qed

section \<open>Expiry and the stale table\<close>

text \<open>
  C4 fails on the code.  A forecast is fetched and stored at timer reading 0 with the
  default settings (1000 entries, 3600 seconds).  At reading 4000 the entry is no
  longer live, and nothing was kept of it: \<open>get\<close> misses, \<open>get_stale\<close> finds no
  record, and a call of \<open>get_forecast\<close> whose fetch fails raises instead of serving
  the last known forecast.  \<open>set\<close> copies an entry to the stale table only while that
  entry is still live, which an entry that expired is not.
\<close>

theorem expired_entry_leaves_no_stale_record:
  "fst (get_forecast (env_at 0 (Inr two_days)) BELGRADE_LAT BELGRADE_LON None None CELSIUS
          None (init_state 1000 3600)) = Inr 0
   \<and> ttl_contains 0 ''forecast:44.8125:20.4612''
        (cache (snd (get_forecast (env_at 0 (Inr two_days)) BELGRADE_LAT BELGRADE_LON None None
                       CELSIUS None (init_state 1000 3600))))
   \<and> fst (get 4000 ''forecast:44.8125:20.4612''
        (snd (get_forecast (env_at 0 (Inr two_days)) BELGRADE_LAT BELGRADE_LON None None
                CELSIUS None (init_state 1000 3600)))) = Inr None
   \<and> get_stale ''forecast:44.8125:20.4612''
        (snd (get_forecast (env_at 0 (Inr two_days)) BELGRADE_LAT BELGRADE_LON None None
                CELSIUS None (init_state 1000 3600))) = None
   \<and> fst (get_forecast (env_at 4000 (Inl ''ConnectTimeout'')) BELGRADE_LAT BELGRADE_LON None
          None CELSIUS None
          (snd (get_forecast (env_at 0 (Inr two_days)) BELGRADE_LAT BELGRADE_LON None None
                  CELSIUS None (init_state 1000 3600))))
       = Inl (HTTPError ''yr.no API unavailable: ConnectTimeout'')"
  by code_simp

section \<open>Stale fallback\<close>

lemma fst_shape [simp]: "fst (shape r u days s) = r"
  by (simp add: shape_def convert_units_def filter_days_def Let_def split: option.splits)

lemma responses_shape_other:
  "r' \<noteq> r \<Longrightarrow> responses (snd (shape r u days s)) r' = responses s r'"
  by (simp add: shape_def convert_units_def filter_days_def Let_def split: option.splits)

lemma forecasts_shape:
  "forecasts (responses (snd (shape r u days s)) r) = shaped_forecasts u days (forecasts (responses s r))"
  by (simp add: shape_def convert_units_def filter_days_def Let_def shaped_forecasts_def
      split: option.splits)

lemma flags_shape:
  "cached (responses (snd (shape r u days s)) r) = cached (responses s r)
   \<and> stale (responses (snd (shape r u days s)) r) = stale (responses s r)
   \<and> cached_at (responses (snd (shape r u days s)) r) = cached_at (responses s r)
   \<and> location (responses (snd (shape r u days s)) r) = location (responses s r)
   \<and> generated_at (responses (snd (shape r u days s)) r) = generated_at (responses s r)"
  by (simp add: shape_def convert_units_def filter_days_def Let_def split: option.splits)

lemma rest_shape:
  "entries (snd (shape r u days s)) = entries s
   \<and> cache (snd (shape r u days s)) = cache s
   \<and> stale_cache (snd (shape r u days s)) = stale_cache s
   \<and> next_ref (snd (shape r u days s)) = next_ref s"
  by (simp add: shape_def convert_units_def filter_days_def Let_def split: option.splits)

lemma get_miss:
  "\<not> ttl_contains t key (cache s) \<Longrightarrow>
     get t key s = (Inr None, s\<lparr>stats_misses := stats_misses s + 1\<rparr>)"
  by (simp add: get_def)

lemma get_stale_eq: "get_stale key s = stale_cache s key"
  by (auto simp: get_stale_def domIff)

text \<open>
  C3.  Take a call of \<open>get_forecast\<close> that reaches the fetch (both probes of the live
  table miss) and whose fetch raises \<open>httpx.HTTPError\<close>.  If the stale table has an entry
  for the key, the call returns that entry's response object, stamped \<open>cached = True\<close>,
  \<open>stale = True\<close> and \<open>cached_at\<close> the entry's \<open>created_at\<close>, with the entry's
  forecasts (converted and cut as the caller asked) and its location.  If it has none,
  the call raises \<open>httpx.HTTPError\<close>.
\<close>

theorem stale_fallback:
  assumes key: "key = generate_key (truncate_coordinates lat) (truncate_coordinates lon)"
    and miss1: "\<not> ttl_contains (now_probe ev) key (cache s)"
    and miss2: "\<not> ttl_contains (now_locked ev) key (cache s)"
    and fail: "fetch_forecast ev (truncate_coordinates lat) (truncate_coordinates lon) = Inl msg"
  shows "case get_stale key s of
           None \<Rightarrow>
             fst (get_forecast ev lat lon nm days u tz s) =
               Inl (HTTPError (''yr.no API unavailable: '' @ msg))
         | Some stale_entry \<Rightarrow>
             (let r = data (entries s stale_entry);
                  s' = snd (get_forecast ev lat lon nm days u tz s)
              in fst (get_forecast ev lat lon nm days u tz s) = Inr r
                 \<and> cached (responses s' r) \<and> stale (responses s' r)
                 \<and> cached_at (responses s' r) = Some (created_at (entries s stale_entry))
                 \<and> forecasts (responses s' r) = shaped_forecasts u days (forecasts (responses s r))
                 \<and> location (responses s' r) = location (responses s r))"
proof (cases "get_stale key s")
  case None
  then have "get_stale key (s\<lparr>stats_misses := stats_misses s + 1,
      fetch_locks := insert (''lock:'' @ key) (fetch_locks s),
      stats_misses := stats_misses s + 1 + 1\<rparr>) = None"
    by (simp add: get_stale_eq)
  with None miss1 miss2 fail show ?thesis
    by (simp add: get_forecast_def Let_def key [symmetric] truncate_coordinates_def [symmetric]
        get_miss)
next
  case (Some e)
  then have "get_stale key (s\<lparr>stats_misses := stats_misses s + 1,
      fetch_locks := insert (''lock:'' @ key) (fetch_locks s),
      stats_misses := stats_misses s + 1 + 1\<rparr>) = Some e"
    by (simp add: get_stale_eq)
  with Some miss1 miss2 fail show ?thesis
    by (simp add: get_forecast_def Let_def key [symmetric] truncate_coordinates_def [symmetric]
        get_miss serve_stale_def split_beta forecasts_shape flags_shape rest_shape)
qed

text \<open>
  The first entry for Belgrade is in the stale table and the live entry has expired;
  the fetch fails and the caller asked for one day in Fahrenheit.
\<close>

theorem stale_fallback_witness:
  "fst (get_forecast (env_at 4000 (Inl ''ConnectTimeout'')) BELGRADE_LAT BELGRADE_LON None
          (Some 1) FAHRENHEIT None demoted_state) = Inr 0
   \<and> cached (responses (snd (get_forecast (env_at 4000 (Inl ''ConnectTimeout'')) BELGRADE_LAT
          BELGRADE_LON None (Some 1) FAHRENHEIT None demoted_state)) 0)
   \<and> stale (responses (snd (get_forecast (env_at 4000 (Inl ''ConnectTimeout'')) BELGRADE_LAT
          BELGRADE_LON None (Some 1) FAHRENHEIT None demoted_state)) 0)
   \<and> cached_at (responses (snd (get_forecast (env_at 4000 (Inl ''ConnectTimeout''))
          BELGRADE_LAT BELGRADE_LON None (Some 1) FAHRENHEIT None demoted_state)) 0) = Some 0
   \<and> forecasts (responses (snd (get_forecast (env_at 4000 (Inl ''ConnectTimeout''))
          BELGRADE_LAT BELGRADE_LON None (Some 1) FAHRENHEIT None demoted_state)) 0) =
       [\<lparr>date = 739631, temperature = 41, unit = FAHRENHEIT, time = 50400000000,
         source_time = 1768485600000000\<rparr>]"
proof -
  let ?key = "''forecast:44.8125:20.4612''"
  let ?ev = "env_at 4000 (Inl ''ConnectTimeout'')"
  have k: "?key = generate_key (truncate_coordinates BELGRADE_LAT) (truncate_coordinates BELGRADE_LON)"
    by code_simp
  have m1: "\<not> ttl_contains (now_probe ?ev) ?key (cache demoted_state)"
    by code_simp
  have m2: "\<not> ttl_contains (now_locked ?ev) ?key (cache demoted_state)"
    by code_simp
  have f: "fetch_forecast ?ev (truncate_coordinates BELGRADE_LAT) (truncate_coordinates BELGRADE_LON)
      = Inl ''ConnectTimeout''"
    by (simp add: env_at_def)
  have st: "get_stale ?key demoted_state = Some 1"
    by code_simp
  have vals: "data (entries demoted_state 1) = 0 \<and> created_at (entries demoted_state 1) = 0
      \<and> shaped_forecasts FAHRENHEIT (Some 1) (forecasts (responses demoted_state 0)) =
        [\<lparr>date = 739631, temperature = 41, unit = FAHRENHEIT, time = 50400000000,
          source_time = 1768485600000000\<rparr>]"
    by code_simp
  from stale_fallback [OF k m1 m2 f, of None "Some 1" FAHRENHEIT None] st vals
  show ?thesis by (simp add: Let_def)
qed

section \<open>The stored response and the returned response are one object\<close>

text \<open>
  C1 fails on the code.  The upstream returns 5 and 10 degrees Celsius for two days, and
  the first caller asks for one day in Fahrenheit.  \<open>set\<close> stores the response object,
  and \<open>_convert_units\<close> and \<open>_filter_days\<close> then assign to that same object: the live
  entry holds one reading of 41 degrees Fahrenheit.  A second caller who asks for
  Celsius and all days is served that reading, and serving it sets \<open>cached\<close> on the
  stored object; one who asks for Fahrenheit has the Fahrenheit value converted once
  more.
\<close>

theorem stored_entry_is_mutated:
  "process_timeseries utc_zone two_days =
     [\<lparr>date = 739631, temperature = 5, unit = CELSIUS, time = 50400000000,
       source_time = 1768485600000000\<rparr>,
      \<lparr>date = 739632, temperature = 10, unit = CELSIUS, time = 50400000000,
       source_time = 1768572000000000\<rparr>]
   \<and> live_entry 0 ''forecast:44.8125:20.4612'' (cache after_fahrenheit_call) = Some 1
   \<and> data (entries after_fahrenheit_call 1) = 0
   \<and> forecasts (responses after_fahrenheit_call 0) =
     [\<lparr>date = 739631, temperature = 41, unit = FAHRENHEIT, time = 50400000000,
       source_time = 1768485600000000\<rparr>]
   \<and> \<not> cached (responses after_fahrenheit_call 0)
   \<and> fst (get_forecast (env_at 10 (Inr two_days)) BELGRADE_LAT BELGRADE_LON None None CELSIUS
          None after_fahrenheit_call) = Inr 0
   \<and> forecasts (responses (snd (get_forecast (env_at 10 (Inr two_days)) BELGRADE_LAT
          BELGRADE_LON None None CELSIUS None after_fahrenheit_call)) 0) =
     [\<lparr>date = 739631, temperature = 41, unit = FAHRENHEIT, time = 50400000000,
       source_time = 1768485600000000\<rparr>]
   \<and> cached (responses (snd (get_forecast (env_at 10 (Inr two_days)) BELGRADE_LAT
          BELGRADE_LON None None CELSIUS None after_fahrenheit_call)) 0)
   \<and> map temperature (forecasts (responses (snd (get_forecast (env_at 10 (Inr two_days))
          BELGRADE_LAT BELGRADE_LON None None FAHRENHEIT None after_fahrenheit_call)) 0)) =
     [529 / 5]"
  by code_simp

section \<open>Forecasts are strictly ascending by date\<close>

lemma date_convert_reading [simp]: "date (convert_reading u r) = date r"
  by (simp add: convert_reading_def)

lemma dates_shaped_forecasts:
  "sorted_wrt (<) (map date fs) \<Longrightarrow> sorted_wrt (<) (map date (shaped_forecasts u days fs))"
  by (auto simp: shaped_forecasts_def slice_to_def Let_def o_def take_map [symmetric]
      sorted_wrt_take split: option.splits)

lemma ascending_process_timeseries:
  "sorted_wrt (<) (map date (process_timeseries zone ts))"
  by (simp add: dates_process_timeseries strict_sorted_iff distinct_table)

lemma ascending_new_ForecastResponse:
  "sorted_wrt (<) (map date fs) \<Longrightarrow> ascending (new_ForecastResponse loc fs n c st c_at g_at)"
  by (simp add: ascending_def forecasts_new_ForecastResponse map_sort_key strict_sorted_iff)

lemma ascending_shape:
  "ascending (responses s r) \<Longrightarrow> ascending (responses (snd (shape r u days s)) r)"
  by (simp add: ascending_def forecasts_shape dates_shaped_forecasts)

lemma entry_ok_shape:
  assumes "ascending (responses s r)" and "entry_ok s e"
  shows "entry_ok (snd (shape r u days s)) e"
proof (cases "data (entries s e) = r")
  case True
  with ascending_shape [OF assms(1)] show ?thesis
    by (simp add: entry_ok_def rest_shape)
next
  case False
  with assms(2) show ?thesis
    by (simp add: entry_ok_def rest_shape responses_shape_other)
qed

lemma cache_ok_shape:
  "ascending (responses s r) \<Longrightarrow> cache_ok s \<Longrightarrow> cache_ok (snd (shape r u days s))"
  by (simp add: cache_ok_def rest_shape entry_ok_shape)

text \<open>Assigning to fields of a response other than the forecasts.\<close>

lemma entry_ok_stamp:
  assumes "forecasts v = forecasts (responses s r)" and "entry_ok s e"
  shows "entry_ok (s\<lparr>responses := (responses s)(r := v)\<rparr>) e"
  using assms by (auto simp: entry_ok_def ascending_def)

lemma cache_ok_stamp:
  "forecasts v = forecasts (responses s r) \<Longrightarrow> cache_ok s \<Longrightarrow>
     cache_ok (s\<lparr>responses := (responses s)(r := v)\<rparr>)"
  by (simp add: cache_ok_def entry_ok_stamp)

lemma serve_cached_ok:
  assumes "cache_ok s" and "entry_ok s e"
  shows "cache_ok (snd (serve_cached e u days s))
     \<and> (\<exists>r. fst (serve_cached e u days s) = Inr r
            \<and> ascending (responses (snd (serve_cached e u days s)) r))"
proof -
  let ?r = "data (entries s e)"
  let ?s1 = "s\<lparr>responses := (responses s)(?r :=
                 (responses s ?r)\<lparr>cached := True, cached_at := Some (created_at (entries s e))\<rparr>)\<rparr>"
  have 1: "cache_ok ?s1" using assms(1) by (intro cache_ok_stamp) simp_all
  have 2: "ascending (responses ?s1 ?r)" using assms(2) by (simp add: entry_ok_def ascending_def)
  have eq: "serve_cached e u days s = (Inr ?r, snd (shape ?r u days ?s1))"
    by (simp add: serve_cached_def Let_def split_beta)
  show ?thesis
    unfolding eq using cache_ok_shape [OF 2 1] ascending_shape [OF 2] by simp
qed

lemma serve_stale_ok:
  assumes "cache_ok s" and "entry_ok s e"
  shows "cache_ok (snd (serve_stale e u days s))
     \<and> (\<exists>r. fst (serve_stale e u days s) = Inr r
            \<and> ascending (responses (snd (serve_stale e u days s)) r))"
proof -
  let ?r = "data (entries s e)"
  let ?s1 = "s\<lparr>responses := (responses s)(?r :=
                 (responses s ?r)\<lparr>cached := True, stale := True,
                    cached_at := Some (created_at (entries s e))\<rparr>)\<rparr>"
  have 1: "cache_ok ?s1" using assms(1) by (intro cache_ok_stamp) simp_all
  have 2: "ascending (responses ?s1 ?r)" using assms(2) by (simp add: entry_ok_def ascending_def)
  have eq: "serve_stale e u days s = (Inr ?r, snd (shape ?r u days ?s1))"
    by (simp add: serve_stale_def Let_def split_beta)
  show ?thesis
    unfolding eq using cache_ok_shape [OF 2 1] ascending_shape [OF 2] by simp
qed


lemma set_move_to_end [simp]: "set (move_to_end key ls) = set ls"
  by (auto simp: move_to_end_def)

lemma get_cases:
  "get t key s = (Inr None, s\<lparr>stats_misses := stats_misses s + 1\<rparr>)
   \<or> (\<exists>e. live_entry t key (cache s) = Some e
          \<and> get t key s =
              (Inr (Some e),
               s\<lparr>entries := (entries s)(e := increment_hits (entries s e)),
                 cache := (cache s)\<lparr>links := move_to_end key (links (cache s))\<rparr>,
                 stats_hits := stats_hits s + 1\<rparr>))"
proof (cases "ttl_contains t key (cache s)")
  case True
  then show ?thesis
    by (simp add: get_def ttl_getitem_live live_entry_the)
next
  case False
  then show ?thesis by (simp add: get_def)
qed

lemma live_entry_in_links:
  "live_entry t key c = Some e \<Longrightarrow> \<exists>l \<in> set (links c). fst (snd l) = e"
  by (force simp: live_entry_def split: option.splits if_splits dest!: map_of_SomeD)

lemma entry_ok_hit:
  "entry_ok s e \<Longrightarrow>
     entry_ok (s\<lparr>entries := (entries s)(e' := increment_hits (entries s e')), cache := c,
                stats_hits := n\<rparr>) e"
  by (auto simp: entry_ok_def increment_hits_def)

lemma get_ok:
  assumes "cache_ok s"
  shows "cache_ok (snd (get t key s))
     \<and> (\<forall>e. fst (get t key s) = Inr (Some e) \<longrightarrow> entry_ok (snd (get t key s)) e)
     \<and> (\<exists>r. fst (get t key s) = Inr r)
     \<and> stale_cache (snd (get t key s)) = stale_cache s"
  using get_cases [of t key s]
proof
  assume miss: "get t key s = (Inr None, s\<lparr>stats_misses := stats_misses s + 1\<rparr>)"
  have "cache_ok (s\<lparr>stats_misses := stats_misses s + 1\<rparr>)"
    using assms by (simp add: cache_ok_def entry_ok_def)
  with miss show ?thesis by simp
next
  assume "\<exists>e. live_entry t key (cache s) = Some e
          \<and> get t key s =
              (Inr (Some e),
               s\<lparr>entries := (entries s)(e := increment_hits (entries s e)),
                 cache := (cache s)\<lparr>links := move_to_end key (links (cache s))\<rparr>,
                 stats_hits := stats_hits s + 1\<rparr>)"
  then obtain e where live: "live_entry t key (cache s) = Some e"
    and hit: "get t key s =
              (Inr (Some e),
               s\<lparr>entries := (entries s)(e := increment_hits (entries s e)),
                 cache := (cache s)\<lparr>links := move_to_end key (links (cache s))\<rparr>,
                 stats_hits := stats_hits s + 1\<rparr>)"
    by blast
  let ?s' = "s\<lparr>entries := (entries s)(e := increment_hits (entries s e)),
                 cache := (cache s)\<lparr>links := move_to_end key (links (cache s))\<rparr>,
                 stats_hits := stats_hits s + 1\<rparr>"
  from live_entry_in_links [OF live] assms have "entry_ok s e"
    by (auto simp: cache_ok_def)
  then have e: "entry_ok ?s' e" by (rule entry_ok_hit)
  have "cache_ok ?s'"
    unfolding cache_ok_def
  proof (intro conjI ballI)
    fix l assume "l \<in> set (links (cache ?s'))"
    then have "l \<in> set (links (cache s))" by simp
    with assms have "entry_ok s (fst (snd l))" by (simp add: cache_ok_def)
    then show "entry_ok ?s' (fst (snd l))" by (rule entry_ok_hit)
  next
    fix x assume "x \<in> ran (stale_cache ?s')"
    then have "x \<in> ran (stale_cache s)" by simp
    with assms have "entry_ok s x" by (simp add: cache_ok_def)
    then show "entry_ok ?s' x" by (rule entry_ok_hit)
  qed
  with e hit show ?thesis by simp
qed


lemma set_popitems: "set (popitems m ls) \<subseteq> set ls"
  by (induction ls) auto

lemma links_ttl_setitem:
  "set (links (snd (ttl_setitem t key v c))) \<subseteq> insert (key, v, t + ttl c) (set (links c))"
proof -
  have "set (popitems (maxsize c) (filter (\<lambda>l. t < snd (snd l)) (links c))) \<subseteq> set (links c)"
    using set_popitems [of "maxsize c" "filter (\<lambda>l. t < snd (snd l)) (links c)"] by auto
  then show ?thesis
    by (auto simp: ttl_setitem_def expire_def Let_def)
qed

lemma ran_upd_subset: "ran (m(k \<mapsto> v)) \<subseteq> insert v (ran m)"
  by (auto simp: ran_def)

lemma entry_ok_alloc:
  assumes "ascending (responses s dat)" and "entry_ok s e"
  shows "entry_ok (s\<lparr>entries := (entries s)(n := \<lparr>data = dat, created_at = u, hit_count = 0\<rparr>),
                    next_ref := m, cache := c, stale_cache := st\<rparr>) e"
  using assms by (auto simp: entry_ok_def)

lemma set_entry_shape:
  "\<exists>c st. snd (set_entry t u key dat s) =
       s\<lparr>entries := (entries s)(next_ref s := \<lparr>data = dat, created_at = u, hit_count = 0\<rparr>),
         next_ref := next_ref s + 1, cache := c, stale_cache := st\<rparr>
     \<and> set (links c) \<subseteq> insert (key, next_ref s, t + ttl (cache s)) (set (links (cache s)))
     \<and> (st = stale_cache s
          \<or> (\<exists>old. live_entry t key (cache s) = Some old \<and> st = (stale_cache s)(key \<mapsto> old)))"
proof (cases "ttl_contains t key (cache s)")
  case True
  let ?c = "(cache s)\<lparr>links := move_to_end key (links (cache s))\<rparr>"
  let ?old = "fst (the (map_of (links (cache s)) key))"
  from links_ttl_setitem [of t key "next_ref s" ?c]
  have "set (links (snd (ttl_setitem t key (next_ref s) ?c)))
      \<subseteq> insert (key, next_ref s, t + ttl (cache s)) (set (links (cache s)))"
    by simp
  with True show ?thesis
    by (intro exI [of _ "snd (ttl_setitem t key (next_ref s) ?c)"]
        exI [of _ "(stale_cache s)(key \<mapsto> ?old)"])
      (simp add: set_entry_def Let_def ttl_getitem_live snd_store_live live_entry_the)
next
  case False
  with links_ttl_setitem [of t key "next_ref s" "cache s"] show ?thesis
    by (intro exI [of _ "snd (ttl_setitem t key (next_ref s) (cache s))"]
        exI [of _ "stale_cache s"])
      (simp add: set_entry_def Let_def snd_store_live)
qed

lemma set_entry_ok:
  assumes ok: "cache_ok s" and asc: "ascending (responses s dat)"
  shows "cache_ok (snd (set_entry t u key dat s))
     \<and> responses (snd (set_entry t u key dat s)) = responses s"
proof -
  from set_entry_shape [of t u key dat s] obtain c st where
    eq: "snd (set_entry t u key dat s) =
       s\<lparr>entries := (entries s)(next_ref s := \<lparr>data = dat, created_at = u, hit_count = 0\<rparr>),
         next_ref := next_ref s + 1, cache := c, stale_cache := st\<rparr>"
    and ls: "set (links c) \<subseteq> insert (key, next_ref s, t + ttl (cache s)) (set (links (cache s)))"
    and st: "st = stale_cache s
          \<or> (\<exists>old. live_entry t key (cache s) = Some old \<and> st = (stale_cache s)(key \<mapsto> old))"
    by blast
  let ?s' = "s\<lparr>entries := (entries s)(next_ref s := \<lparr>data = dat, created_at = u, hit_count = 0\<rparr>),
         next_ref := next_ref s + 1, cache := c, stale_cache := st\<rparr>"
  have new: "entry_ok ?s' (next_ref s)"
    using asc by (simp add: entry_ok_def)
  have keep: "entry_ok ?s' e" if "entry_ok s e" for e
    using asc that by (rule entry_ok_alloc)
  have "cache_ok ?s'"
    unfolding cache_ok_def
  proof (intro conjI ballI)
    fix l assume "l \<in> set (links (cache ?s'))"
    with ls have "l = (key, next_ref s, t + ttl (cache s)) \<or> l \<in> set (links (cache s))"
      by auto
    then show "entry_ok ?s' (fst (snd l))"
    proof
      assume "l = (key, next_ref s, t + ttl (cache s))"
      with new show ?thesis by simp
    next
      assume "l \<in> set (links (cache s))"
      with ok have "entry_ok s (fst (snd l))" by (simp add: cache_ok_def)
      then show ?thesis by (rule keep)
    qed
  next
    fix x assume "x \<in> ran (stale_cache ?s')"
    then have x: "x \<in> ran st" by simp
    from st have "entry_ok s x"
    proof
      assume "st = stale_cache s"
      with x ok show ?thesis by (simp add: cache_ok_def)
    next
      assume "\<exists>old. live_entry t key (cache s) = Some old \<and> st = (stale_cache s)(key \<mapsto> old)"
      then obtain old where old: "live_entry t key (cache s) = Some old"
        and "st = (stale_cache s)(key \<mapsto> old)" by blast
      with x ran_upd_subset [of "stale_cache s" key old]
      have "x = old \<or> x \<in> ran (stale_cache s)" by auto
      then show ?thesis
      proof
        assume "x = old"
        with live_entry_in_links [OF old] ok show ?thesis by (auto simp: cache_ok_def)
      next
        assume "x \<in> ran (stale_cache s)"
        with ok show ?thesis by (simp add: cache_ok_def)
      qed
    qed
    then show "entry_ok ?s' x" by (rule keep)
  qed
  then show ?thesis by (simp add: eq)
qed


lemma entry_ok_write:
  assumes "ascending v" and "entry_ok s e"
  shows "entry_ok (s\<lparr>responses := (responses s)(r := v), next_ref := m\<rparr>) e"
  using assms by (auto simp: entry_ok_def)

lemma serve_fresh_ok:
  assumes ok: "cache_ok s"
  shows "cache_ok (snd (serve_fresh ev ts lat lon nm days u tz key s))
     \<and> (\<forall>r. fst (serve_fresh ev ts lat lon nm days u tz key s) = Inr r \<longrightarrow>
            ascending (responses (snd (serve_fresh ev ts lat lon nm days u tz key s)) r))"
proof (cases "new_Location lat lon nm")
  case (Inl e)
  with ok show ?thesis by (simp add: serve_fresh_def Let_def)
next
  case (Inr loc)
  let ?readings = "process_timeseries (\<lambda>utc. to_local_time ev utc lat lon tz) ts"
  let ?v = "new_ForecastResponse loc ?readings (int (length ?readings)) False False None
              (utcnow_response ev)"
  let ?r = "next_ref s"
  let ?s1 = "s\<lparr>responses := (responses s)(?r := ?v), next_ref := next_ref s + 1\<rparr>"
  let ?set = "set_entry (now_store ev) (utcnow_entry ev) key ?r ?s1"
  have v: "ascending ?v"
    by (intro ascending_new_ForecastResponse ascending_process_timeseries)
  have ok1: "cache_ok ?s1"
    using ok by (auto simp: cache_ok_def intro: entry_ok_write [OF v])
  have asc1: "ascending (responses ?s1 ?r)"
    using v by simp
  from set_entry_ok [OF ok1 asc1]
  have ok2: "cache_ok (snd ?set)" and resp2: "responses (snd ?set) = responses ?s1"
    by blast+
  from asc1 resp2 have asc2: "ascending (responses (snd ?set) ?r)"
    by simp
  have eq: "serve_fresh ev ts lat lon nm days u tz key s =
      (case fst ?set of
         Inl e \<Rightarrow> (Inl e, snd ?set)
       | Inr u1 \<Rightarrow> (Inr ?r, snd (shape ?r u days (snd ?set))))"
    using Inr by (simp add: serve_fresh_def Let_def split_beta split: sum.splits)
  show ?thesis
  proof (cases "fst ?set")
    case (Inl e)
    with ok2 show ?thesis unfolding eq by simp
  next
    case (Inr u1)
    with cache_ok_shape [OF asc2 ok2] ascending_shape [OF asc2] show ?thesis
      unfolding eq by simp
  qed
qed

lemma cache_ok_locks [simp]: "cache_ok (s\<lparr>fetch_locks := x\<rparr>) = cache_ok s"
  by (simp add: cache_ok_def entry_ok_def)

lemma entry_ok_locks [simp]: "entry_ok (s\<lparr>fetch_locks := x\<rparr>) e = entry_ok s e"
  by (simp add: entry_ok_def)

lemma get_forecast_ok:
  assumes ok: "cache_ok s"
  shows "cache_ok (snd (get_forecast ev lat lon nm days u tz s))
     \<and> (\<forall>r. fst (get_forecast ev lat lon nm days u tz s) = Inr r \<longrightarrow>
            ascending (responses (snd (get_forecast ev lat lon nm days u tz s)) r))"
proof -
  define lat' where "lat' = float_of_string (format_4f lat)"
  define lon' where "lon' = float_of_string (format_4f lon)"
  define key where "key = generate_key lat' lon'"
  obtain a1 s1 where g1: "get (now_probe ev) key s = (a1, s1)"
    by (cases "get (now_probe ev) key s")
  define s2 where "s2 = s1\<lparr>fetch_locks := insert (''lock:'' @ key) (fetch_locks s1)\<rparr>"
  obtain a3 s3 where g2: "get (now_locked ev) key s2 = (a3, s3)"
    by (cases "get (now_locked ev) key s2")
  have unfold: "get_forecast ev lat lon nm days u tz s =
     (case a1 of
        Inl e \<Rightarrow> (Inl e, s1)
      | Inr (Some ce) \<Rightarrow> serve_cached ce u days s1
      | Inr None \<Rightarrow>
         (case a3 of
            Inl e \<Rightarrow> (Inl e, s3)
          | Inr (Some ce) \<Rightarrow> serve_cached ce u days s3
          | Inr None \<Rightarrow>
             (case fetch_forecast ev lat' lon' of
                Inl e \<Rightarrow>
                  (case get_stale key s3 of
                     Some se \<Rightarrow> serve_stale se u days s3
                   | None \<Rightarrow> (Inl (HTTPError (''yr.no API unavailable: '' @ e)), s3))
              | Inr ts \<Rightarrow> serve_fresh ev ts lat' lon' nm days u tz key s3)))"
    unfolding get_forecast_def Let_def lat'_def [symmetric] lon'_def [symmetric]
      key_def [symmetric] g1 prod.case s2_def [symmetric] g2
    by (simp split: sum.splits option.splits)
  from get_ok [OF ok, of "now_probe ev" key] g1
  have ok1: "cache_ok s1" and hit1: "\<And>e. a1 = Inr (Some e) \<Longrightarrow> entry_ok s1 e"
    and res1: "\<exists>r. a1 = Inr r"
    by simp_all
  have ok2: "cache_ok s2" using ok1 by (simp add: s2_def)
  from get_ok [OF ok2, of "now_locked ev" key] g2
  have ok3: "cache_ok s3" and hit3: "\<And>e. a3 = Inr (Some e) \<Longrightarrow> entry_ok s3 e"
    and res3: "\<exists>r. a3 = Inr r" and st3: "stale_cache s3 = stale_cache s2"
    by simp_all
  from res1 obtain r1 where r1: "a1 = Inr r1" by blast
  from res3 obtain r3 where r3: "a3 = Inr r3" by blast
  show ?thesis
  proof (cases r1)
    case (Some e)
    with hit1 r1 have "entry_ok s1 e" by simp
    from serve_cached_ok [OF ok1 this, of u days] show ?thesis
      unfolding unfold using r1 Some by auto
  next
    case None
    note n1 = this
    show ?thesis
    proof (cases r3)
      case (Some e)
      with hit3 r3 have "entry_ok s3 e" by simp
      from serve_cached_ok [OF ok3 this, of u days] show ?thesis
        unfolding unfold using r1 n1 r3 Some by auto
    next
      case None
      note n3 = this
      show ?thesis
      proof (cases "fetch_forecast ev lat' lon'")
        case (Inr ts)
        from serve_fresh_ok [OF ok3, of ev ts lat' lon' nm days u tz key] show ?thesis
          unfolding unfold using r1 n1 r3 n3 Inr by simp
      next
        case (Inl msg)
        show ?thesis
        proof (cases "get_stale key s3")
          case None
          with ok3 show ?thesis
            unfolding unfold using r1 n1 r3 n3 Inl by simp
        next
          case (Some se)
          then have "se \<in> ran (stale_cache s3)"
            by (auto simp: get_stale_eq ran_def)
          with ok3 have "entry_ok s3 se" by (simp add: cache_ok_def)
          from serve_stale_ok [OF ok3 this, of u days] show ?thesis
            unfolding unfold using r1 n1 r3 n3 Inl Some by auto
        qed
      qed
    qed
  qed
qed

lemma get_statistics_ok: "cache_ok s \<Longrightarrow> cache_ok (snd (get_statistics t s))"
  by (auto simp: get_statistics_def get_size_def ttl_len_def expire_def cache_ok_def entry_ok_def)

lemma init_state_ok: "cache_ok (init_state m l)"
  by (simp add: cache_ok_def init_state_def)

lemma reachable_ok: "reachable s \<Longrightarrow> cache_ok s"
proof (induction rule: reachable.induct)
  case (start m l)
  show ?case by (rule init_state_ok)
next
  case (call s ev lat lon nm days u tz)
  from get_forecast_ok [OF call.IH] show ?case by blast
next
  case (health s t)
  from health.IH show ?case by (rule get_statistics_ok)
qed

text \<open>
  C5.  In every state the program reaches, for all coordinates, every time series the
  upstream returns (in any order) and every time zone conversion, a call of
  \<open>get_forecast\<close> that returns a response returns one whose forecasts are strictly
  ascending by date, so no date occurs twice.  This holds on every return path: for a
  fresh result, for a live entry and for a stale one.
\<close>

theorem forecasts_strictly_ascending:
  assumes "reachable s"
    and "get_forecast ev lat lon nm days u tz s = (Inr r, s')"
  shows "sorted_wrt (<) (map date (forecasts (responses s' r)))
     \<and> distinct (map date (forecasts (responses s' r)))"
proof -
  from assms(1) have "cache_ok s" by (rule reachable_ok)
  from get_forecast_ok [OF this, of ev lat lon nm days u tz] assms(2)
  have "ascending (responses s' r)" by simp
  then show ?thesis by (simp add: ascending_def strict_sorted_iff)
qed

text \<open>A first call whose upstream returns the two days in reverse order.\<close>

theorem forecasts_strictly_ascending_witness:
  "sorted_wrt (<) (map date (forecasts (responses
      (snd (get_forecast (env_at 0 (Inr (rev two_days))) BELGRADE_LAT BELGRADE_LON None None
              CELSIUS None (init_state 1000 3600))) 0)))
   \<and> distinct (map date (forecasts (responses
      (snd (get_forecast (env_at 0 (Inr (rev two_days))) BELGRADE_LAT BELGRADE_LON None None
              CELSIUS None (init_state 1000 3600))) 0)))
   \<and> map date (forecasts (responses
      (snd (get_forecast (env_at 0 (Inr (rev two_days))) BELGRADE_LAT BELGRADE_LON None None
              CELSIUS None (init_state 1000 3600))) 0)) = [739631, 739632]"
proof -
  let ?call = "get_forecast (env_at 0 (Inr (rev two_days))) BELGRADE_LAT BELGRADE_LON None None
              CELSIUS None (init_state 1000 3600)"
  have "fst ?call = Inr 0"
    by code_simp
  then have run: "?call = (Inr 0, snd ?call)"
    by (metis prod.collapse)
  have dates: "map date (forecasts (responses (snd ?call) 0)) = [739631, 739632]"
    by code_simp
  from forecasts_strictly_ascending [OF reachable.start run] dates
  show ?thesis by blast
qed

section \<open>Rounded coordinates and cache keys\<close>

lemma digit_cases:
  assumes "0 \<le> d" and "d < 10"
  shows "d = 0 \<or> d = 1 \<or> d = 2 \<or> d = 3 \<or> d = 4 \<or> d = 5 \<or> d = 6 \<or> d = 7 \<or> d = 8 \<or> d = (9::int)"
  using assms by presburger

lemma digit_char_digit: "is_digit (digit_char d)"
  by (simp add: digit_char_def is_digit_def)

lemma digit_val_digit_char:
  assumes "0 \<le> d" and "d < 10"
  shows "digit_val (digit_char d) = d"
  using digit_cases [OF assms] by (auto simp: digit_char_def digit_val_def)

lemma int_of_digits_snoc: "int_of_digits (cs @ [c]) = 10 * int_of_digits cs + digit_val c"
  by (simp add: int_of_digits_def)

lemma digits_of_digits: "\<forall>c \<in> set (digits_of n). is_digit c"
proof (induction n rule: digits_of.induct)
  case (1 n)
  show ?case
  proof (cases "n < 10")
    case True
    then show ?thesis by (subst digits_of.simps) (simp add: digit_char_digit)
  next
    case False
    with "1.IH" show ?thesis by (subst digits_of.simps) (simp add: digit_char_digit)
  qed
qed

lemma int_of_digits_of: "0 \<le> n \<Longrightarrow> int_of_digits (digits_of n) = n"
proof (induction n rule: digits_of.induct)
  case (1 n)
  show ?case
  proof (cases "n < 10")
    case True
    with "1.prems" show ?thesis
      by (subst digits_of.simps) (simp add: int_of_digits_def digit_val_digit_char)
  next
    case False
    with "1.prems" have "0 \<le> n div 10" by simp
    with "1.IH" False have "int_of_digits (digits_of (n div 10)) = n div 10" by simp
    with False show ?thesis
      by (subst digits_of.simps) (simp add: int_of_digits_snoc digit_val_digit_char)
  qed
qed

lemma digits_of_not_Nil: "digits_of n \<noteq> []"
  by (subst digits_of.simps) simp

lemma pad4_digits: "\<forall>c \<in> set (pad4 m). is_digit c"
  by (simp add: pad4_def digit_char_digit)

lemma length_pad4 [simp]: "length (pad4 m) = 4"
  by (simp add: pad4_def)


lemma decimal4:
  assumes "0 \<le> m" and "m < 10000"
  shows "1000 * (m div 1000 mod 10) + 100 * (m div 100 mod 10) + 10 * (m div 10 mod 10)
           + m mod 10 = (m::int)"
proof -
  have c10: "m div 1000 mod 10 = m div 1000"
    using assms by simp
  have d100: "m div 100 = m div 10 div 10"
    by (simp add: zdiv_zmult2_eq [symmetric])
  have d1000: "m div 1000 = m div 10 div 10 div 10"
    by (simp add: zdiv_zmult2_eq [symmetric])
  have 1: "m = 10 * (m div 10) + m mod 10" by simp
  have 2: "m div 10 = 10 * (m div 10 div 10) + m div 10 mod 10" by simp
  have 3: "m div 10 div 10 = 10 * (m div 10 div 10 div 10) + m div 10 div 10 mod 10" by simp
  show ?thesis
    unfolding c10 unfolding d100 d1000 using 1 2 3 by linarith
qed

lemma digit_val_mod: "digit_val (digit_char (x mod 10)) = x mod 10"
  by (rule digit_val_digit_char) simp_all

lemma int_of_pad4:
  assumes "0 \<le> m" and "m < 10000"
  shows "int_of_digits (pad4 m) = m"
proof -
  have "int_of_digits (pad4 m) =
      1000 * digit_val (digit_char (m div 1000 mod 10))
      + 100 * digit_val (digit_char (m div 100 mod 10))
      + 10 * digit_val (digit_char (m div 10 mod 10)) + digit_val (digit_char (m mod 10))"
    by (simp add: pad4_def int_of_digits_def)
  also have "\<dots> = 1000 * (m div 1000 mod 10) + 100 * (m div 100 mod 10)
      + 10 * (m div 10 mod 10) + m mod 10"
    unfolding digit_val_mod ..
  also have "\<dots> = m"
    by (rule decimal4 [OF assms])
  finally show ?thesis .
qed

lemma is_digit_not_sep:
  "is_digit c \<Longrightarrow> c \<noteq> CHR ''.'' \<and> c \<noteq> CHR '':'' \<and> c \<noteq> CHR ''-''"
  by (auto simp: is_digit_def)

lemma round_half_even_nonneg: "0 \<le> y \<Longrightarrow> 0 \<le> round_half_even y"
  by (simp add: round_half_even_def Let_def)

lemma round_half_even_of_int [simp]: "round_half_even (of_int k) = k"
  by (simp add: round_half_even_def Let_def)

lemma round_half_even_0 [simp]: "round_half_even 0 = 0"
  by (simp add: round_half_even_def)

lemma rounded4_nonneg: "0 \<le> rounded4 x"
  by (simp add: rounded4_def round_half_even_nonneg)

lemma format_4f_eq:
  "format_4f x =
     (if signbit x then ''-'' else []) @ digits_of (rounded4 x div 10000) @ ''.''
       @ pad4 (rounded4 x mod 10000)"
  by (simp add: format_4f_def rounded4_def Let_def)

lemma takeWhile_sep:
  "\<forall>x \<in> set a. x \<noteq> c \<Longrightarrow> takeWhile (\<lambda>x. x \<noteq> c) (a @ c # b) = a"
  by (simp add: takeWhile_append2)

lemma dropWhile_sep:
  "\<forall>x \<in> set a. x \<noteq> c \<Longrightarrow> dropWhile (\<lambda>x. x \<noteq> c) (a @ c # b) = c # b"
  by (simp add: dropWhile_append2)

lemma split_at_sep:
  assumes "\<forall>x \<in> set a. x \<noteq> c" and "\<forall>x \<in> set a'. x \<noteq> c" and "a @ c # b = a' @ c # b'"
  shows "a = a' \<and> b = b'"
proof -
  from assms(3) have "takeWhile (\<lambda>x. x \<noteq> c) (a @ c # b) = takeWhile (\<lambda>x. x \<noteq> c) (a' @ c # b')"
    by simp
  with assms(1,2) have "a = a'" by (simp add: takeWhile_sep)
  with assms(3) show ?thesis by simp
qed

lemma parse_decimal_digits:
  assumes "0 \<le> a" and "0 \<le> b" and "b < 10000"
  shows "parse_decimal (digits_of a @ ''.'' @ pad4 b) = of_int a + of_int b / 10000"
proof -
  have nodot: "\<forall>x \<in> set (digits_of a). x \<noteq> CHR ''.''"
    using digits_of_digits [of a] is_digit_not_sep by blast
  have "takeWhile (\<lambda>c. c \<noteq> CHR ''.'') (digits_of a @ CHR ''.'' # pad4 b) = digits_of a"
    using nodot by (rule takeWhile_sep)
  moreover have "dropWhile (\<lambda>c. c \<noteq> CHR ''.'') (digits_of a @ CHR ''.'' # pad4 b) = CHR ''.'' # pad4 b"
    using nodot by (rule dropWhile_sep)
  ultimately show ?thesis
    using assms by (simp add: parse_decimal_def Let_def int_of_digits_of int_of_pad4)
qed

lemma div_mod_4: "of_int (n div 10000) + of_int (n mod 10000) / 10000 = (of_int n / 10000 :: rat)"
proof -
  have "of_int (n div 10000) * 10000 + of_int (n mod 10000) =
      (of_int (n div 10000 * 10000 + n mod 10000) :: rat)"
    by (simp only: of_int_add of_int_mult of_int_numeral)
  also have "\<dots> = of_int n" by simp
  finally show ?thesis by (simp add: field_simps)
qed

lemma digits_head:
  "\<exists>c cs. digits_of n = c # cs \<and> is_digit c"
  using digits_of_not_Nil [of n] digits_of_digits [of n] by (cases "digits_of n") auto

lemma float_of_string_neg:
  "float_of_string (CHR ''-'' # s) =
     (if parse_decimal s = 0 then NegZero else Num (- parse_decimal s))"
  by (simp add: float_of_string_def Let_def)

lemma float_of_string_pos:
  "c \<noteq> CHR ''-'' \<Longrightarrow> float_of_string (c # s) = Num (parse_decimal (c # s))"
  by (simp add: float_of_string_def)

lemma truncate_coordinates_eq:
  "truncate_coordinates x =
     (if signbit x then (if rounded4 x = 0 then NegZero else Num (- (of_int (rounded4 x) / 10000)))
      else Num (of_int (rounded4 x) / 10000))"
proof -
  let ?n = "rounded4 x"
  let ?body = "digits_of (?n div 10000) @ ''.'' @ pad4 (?n mod 10000)"
  have n: "0 \<le> ?n" by (rule rounded4_nonneg)
  have "parse_decimal ?body = of_int (?n div 10000) + of_int (?n mod 10000) / 10000"
    by (rule parse_decimal_digits) (use n in simp_all)
  then have body: "parse_decimal ?body = of_int ?n / 10000"
    by (simp only: div_mod_4)
  show ?thesis
  proof (cases "signbit x")
    case True
    then have "truncate_coordinates x = float_of_string (CHR ''-'' # ?body)"
      by (simp add: truncate_coordinates_def format_4f_eq)
    also have "\<dots> = (if parse_decimal ?body = 0 then NegZero else Num (- parse_decimal ?body))"
      by (rule float_of_string_neg)
    also have "\<dots> = (if of_int ?n / 10000 = (0::rat) then NegZero
        else Num (- (of_int ?n / 10000)))"
      by (simp only: body)
    also have "\<dots> = (if ?n = 0 then NegZero else Num (- (of_int ?n / 10000)))"
      by simp
    finally show ?thesis using True by simp
  next
    case False
    from digits_head [of "?n div 10000"] obtain c cs
      where c: "digits_of (?n div 10000) = c # cs" "is_digit c" by blast
    with is_digit_not_sep have neq: "c \<noteq> CHR ''-''" by blast
    have split: "?body = c # (cs @ ''.'' @ pad4 (?n mod 10000))" using c by simp
    from False have "truncate_coordinates x = float_of_string ?body"
      by (simp add: truncate_coordinates_def format_4f_eq)
    also have "\<dots> = Num (parse_decimal ?body)"
      unfolding split using neq by (rule float_of_string_pos)
    also have "\<dots> = Num (of_int ?n / 10000)"
      by (simp only: body)
    finally show ?thesis using False by simp
  qed
qed

lemma signbit_truncate [simp]: "signbit (truncate_coordinates x) = signbit x"
  using rounded4_nonneg [of x]
  by (auto simp: truncate_coordinates_eq field_simps)

lemma rounded4_truncate [simp]: "rounded4 (truncate_coordinates x) = rounded4 x"
proof -
  have "round_half_even (\<bar>- (of_int (rounded4 x) / 10000)\<bar> * 10000) = rounded4 x"
    "round_half_even (\<bar>of_int (rounded4 x) / 10000\<bar> * 10000) = rounded4 x"
    using rounded4_nonneg [of x] by (simp_all add: abs_if)
  then show ?thesis
    by (auto simp: truncate_coordinates_eq rounded4_def [of NegZero] rounded4_def [of "Num q" for q])
qed

lemma format_4f_truncate: "format_4f (truncate_coordinates x) = format_4f x"
  by (simp add: format_4f_eq)

lemma truncate_idem: "truncate_coordinates (truncate_coordinates x) = truncate_coordinates x"
  by (simp add: truncate_coordinates_def [of "truncate_coordinates x"] format_4f_truncate)
    (simp add: truncate_coordinates_def)

lemma format_4f_no_colon: "\<forall>c \<in> set (format_4f x). c \<noteq> CHR '':''"
  using digits_of_digits [of "rounded4 x div 10000"] pad4_digits [of "rounded4 x mod 10000"]
    is_digit_not_sep
  by (auto simp: format_4f_eq)

lemma generate_key_eq_iff:
  "generate_key a b = generate_key c d \<longleftrightarrow> format_4f a = format_4f c \<and> format_4f b = format_4f d"
proof
  assume "generate_key a b = generate_key c d"
  then have "format_4f a @ CHR '':'' # format_4f b = format_4f c @ CHR '':'' # format_4f d"
    by (simp add: generate_key_def)
  with split_at_sep [OF format_4f_no_colon format_4f_no_colon]
  show "format_4f a = format_4f c \<and> format_4f b = format_4f d" by blast
qed (simp add: generate_key_def)

text \<open>
  Two pairs of coordinates get the same key exactly when their rounded coordinates
  are the same floats, with the same sign where they are zero.
\<close>

theorem same_key_iff_same_rounded:
  "generate_key (truncate_coordinates a) (truncate_coordinates b) =
     generate_key (truncate_coordinates c) (truncate_coordinates d)
   \<longleftrightarrow> truncate_coordinates a = truncate_coordinates c
       \<and> truncate_coordinates b = truncate_coordinates d"
proof -
  have "format_4f x = format_4f y \<longleftrightarrow> truncate_coordinates x = truncate_coordinates y" for x y
  proof
    assume "format_4f x = format_4f y"
    then show "truncate_coordinates x = truncate_coordinates y"
      by (simp add: truncate_coordinates_def)
  next
    assume "truncate_coordinates x = truncate_coordinates y"
    then have "format_4f (truncate_coordinates x) = format_4f (truncate_coordinates y)" by simp
    then show "format_4f x = format_4f y" by (simp only: format_4f_truncate)
  qed
  then show ?thesis
    by (simp add: generate_key_eq_iff format_4f_truncate)
qed

text \<open>
  C7 fails on the code at negative zero.  The coordinates of the spec's example are
  rounded and keyed as the claim says.  But a small negative latitude and a small
  positive one (here \<open>-1/131072\<close> and \<open>1/131072\<close>, both doubles) round to zero, the rounded values
  are equal as Python compares floats, and the keys differ: the negative one prints as
  \<open>-0.0000\<close>.  The two calls fill two entries of the live table.
\<close>

theorem negative_zero_has_its_own_key:
  "format_4f (Num (4481254321 / 100000000)) = ''44.8125''
   \<and> format_4f (Num (2046123456 / 100000000)) = ''20.4612''
   \<and> generate_key (truncate_coordinates (Num (4481254321 / 100000000)))
         (truncate_coordinates (Num (2046123456 / 100000000))) = ''forecast:44.8125:20.4612''
   \<and> truncate_coordinates (Num (- 1 / 131072)) = NegZero
   \<and> truncate_coordinates (Num (1 / 131072)) = Num 0
   \<and> float_eq (truncate_coordinates (Num (- 1 / 131072))) (truncate_coordinates (Num (1 / 131072)))
   \<and> generate_key (truncate_coordinates (Num (- 1 / 131072))) (truncate_coordinates (Num 20))
       = ''forecast:-0.0000:20.0000''
   \<and> generate_key (truncate_coordinates (Num (1 / 131072))) (truncate_coordinates (Num 20))
       = ''forecast:0.0000:20.0000''
   \<and> map fst (links (cache
         (snd (get_forecast (env_at 1 (Inr two_days)) (Num (1 / 131072)) (Num 20) None None
                 CELSIUS None
            (snd (get_forecast (env_at 0 (Inr two_days)) (Num (- 1 / 131072)) (Num 20) None None
                    CELSIUS None (init_state 1000 3600)))))))
       = [''forecast:-0.0000:20.0000'', ''forecast:0.0000:20.0000'']"
  by code_simp

section \<open>The service never fills the stale table\<close>

lemma live_entry_earlier:
  assumes "live_entry t' key c = Some e" and "t \<le> t'"
  shows "live_entry t key c = Some e"
  using assms by (auto simp: live_entry_def split: option.splits if_splits)

lemma stale_cache_serve_cached [simp]:
  "stale_cache (snd (serve_cached e u days s)) = stale_cache s"
  by (simp add: serve_cached_def Let_def split_beta rest_shape)

lemma stale_cache_serve_stale [simp]:
  "stale_cache (snd (serve_stale e u days s)) = stale_cache s"
  by (simp add: serve_stale_def Let_def split_beta rest_shape)

lemma stale_cache_serve_fresh:
  assumes "live_entry (now_store ev) key (cache s) = None"
  shows "stale_cache (snd (serve_fresh ev ts lat lon nm days u tz key s)) = stale_cache s"
proof (cases "new_Location lat lon nm")
  case (Inl e)
  then show ?thesis by (simp add: serve_fresh_def Let_def)
next
  case (Inr loc)
  with assms show ?thesis
    by (simp add: serve_fresh_def Let_def split_beta stale_cache_set_entry rest_shape
        split: sum.splits)
qed

lemma get_miss_cache:
  assumes "get t key s = (Inr None, s')"
  shows "cache s' = cache s \<and> live_entry t key (cache s) = None"
proof (cases "ttl_contains t key (cache s)")
  case True
  with assms show ?thesis
    by (simp add: get_def ttl_getitem_live)
next
  case False
  with assms show ?thesis
    by (auto simp: get_def live_entry_contains)
qed

text \<open>
  \<open>get_forecast\<close> stores a forecast only after the probe under the lock has missed, and
  a key that is not live then is not live at the store either, unless the timer runs
  backwards.  So no call of \<open>get_forecast\<close> changes the stale table: as long as the
  service is the only one to store in the cache, the stale table stays empty and the
  fallback of C3 has nothing to serve.
\<close>

lemma get_forecast_never_demotes:
  assumes "now_locked ev \<le> now_store ev"
  shows "stale_cache (snd (get_forecast ev lat lon nm days u tz s)) = stale_cache s"
proof -
  define lat' where "lat' = float_of_string (format_4f lat)"
  define lon' where "lon' = float_of_string (format_4f lon)"
  define key where "key = generate_key lat' lon'"
  obtain a1 s1 where g1: "get (now_probe ev) key s = (a1, s1)"
    by (cases "get (now_probe ev) key s")
  define s2 where "s2 = s1\<lparr>fetch_locks := insert (''lock:'' @ key) (fetch_locks s1)\<rparr>"
  obtain a3 s3 where g2: "get (now_locked ev) key s2 = (a3, s3)"
    by (cases "get (now_locked ev) key s2")
  have unfold: "get_forecast ev lat lon nm days u tz s =
     (case a1 of
        Inl e \<Rightarrow> (Inl e, s1)
      | Inr (Some ce) \<Rightarrow> serve_cached ce u days s1
      | Inr None \<Rightarrow>
         (case a3 of
            Inl e \<Rightarrow> (Inl e, s3)
          | Inr (Some ce) \<Rightarrow> serve_cached ce u days s3
          | Inr None \<Rightarrow>
             (case fetch_forecast ev lat' lon' of
                Inl e \<Rightarrow>
                  (case get_stale key s3 of
                     Some se \<Rightarrow> serve_stale se u days s3
                   | None \<Rightarrow> (Inl (HTTPError (''yr.no API unavailable: '' @ e)), s3))
              | Inr ts \<Rightarrow> serve_fresh ev ts lat' lon' nm days u tz key s3)))"
    unfolding get_forecast_def Let_def lat'_def [symmetric] lon'_def [symmetric]
      key_def [symmetric] g1 prod.case s2_def [symmetric] g2
    by (simp split: sum.splits option.splits)
  have st1: "stale_cache s1 = stale_cache s"
    using stale_cache_get [of "now_probe ev" key s] g1 by simp
  have st2: "stale_cache s2 = stale_cache s1" by (simp add: s2_def)
  have st3: "stale_cache s3 = stale_cache s"
    using stale_cache_get [of "now_locked ev" key s2] g2 st1 st2 by simp
  have fresh: "stale_cache (snd (serve_fresh ev ts lat' lon' nm days u tz key s3)) = stale_cache s3"
    if "a3 = Inr None" for ts
  proof -
    from that g2 have "get (now_locked ev) key s2 = (Inr None, s3)" by simp
    from get_miss_cache [OF this]
    have c: "cache s3 = cache s2" and none: "live_entry (now_locked ev) key (cache s2) = None"
      by simp_all
    have "live_entry (now_store ev) key (cache s3) = None"
    proof (cases "live_entry (now_store ev) key (cache s3)")
      case (Some e)
      from live_entry_earlier [OF this assms] none c show ?thesis by simp
    qed simp
    then show ?thesis by (rule stale_cache_serve_fresh)
  qed
  show ?thesis
    unfolding unfold using st1 st3 fresh
    by (auto split: sum.splits option.splits)
qed

end
